theory Spec2Isabelle
  imports Main "HOL-Library.Word" "HOL-Library.Multiset"
begin

section \<open>Machine integers, time and errors\<close>

text \<open>
  Go's \<^verbatim>\<open>int32\<close> and \<^verbatim>\<open>int64\<close> are two's complement words: \<open>+\<close>, \<open>-\<close> and \<open>*\<close> wrap
  around, and the comparisons of the source are the signed ones (\<open><s\<close>, \<open>\<le>s\<close>).
\<close>

type_synonym int32 = "32 word"
type_synonym int64 = "64 word"

text \<open>
  \<^verbatim>\<open>time.Time\<close> is an instant in nanoseconds (relative to the Unix epoch), \<^verbatim>\<open>time.Duration\<close>
  a count of nanoseconds held in an \<^verbatim>\<open>int64\<close>. \<^verbatim>\<open>Time.Sub\<close> saturates at the largest and
  the smallest duration, and the zero \<^verbatim>\<open>time.Time\<close> is January 1 of year 1.
\<close>

type_synonym time = int
type_synonym Duration = int

definition maxDuration :: Duration where
  "maxDuration = 2 ^ 63 - 1"

definition minDuration :: Duration where
  "minDuration = - (2 ^ 63)"

definition time_Sub :: "time \<Rightarrow> time \<Rightarrow> Duration" where
  "time_Sub t u = (if t - u > maxDuration then maxDuration
                   else if t - u < minDuration then minDuration else t - u)"

definition zeroTime :: time where
  "zeroTime = - 62135596800000000000"

text \<open>
  The errors the two packages handle. \<^verbatim>\<open>sarama.KError\<close> is the broker's error code
  (\<^verbatim>\<open>ErrNoError\<close> is code 0); \<^verbatim>\<open>sarama.ErrIncompleteResponse\<close> and
  \<^verbatim>\<open>sarama.ConfigurationError\<close> are errors of the client library; every other error
  (network failures and the like) is \<open>ErrOther\<close> with its text.
\<close>

datatype KError = ErrNoError | ErrOffsetOutOfRange | ErrMessageTooLarge | ErrOtherCode nat

datatype error =
    KErr KError
  | ErrIncompleteResponse
  | ConfigurationError string
  | ErrOther string

text \<open>The two offset constants of the client library: \<^verbatim>\<open>OffsetNewest = -1\<close>, \<^verbatim>\<open>OffsetOldest = -2\<close>.\<close>

definition OffsetNewest :: int64 where
  "OffsetNewest = - 1"

definition OffsetOldest :: int64 where
  "OffsetOldest = - 2"

section \<open>Configuration and the cluster client\<close>

text \<open>The fields of \<^verbatim>\<open>sarama.Config\<close> that the message streams and broker executors read.\<close>

record Config =
  Fetch_Min :: int32
  Fetch_Default :: int32
  Fetch_Max :: int32
  MaxWaitTime :: Duration
  Retry_Backoff :: Duration
  Return_Errors :: bool
  ChannelBufferSize :: nat

text \<open>
  The cluster client is outside the repository; the factory only calls \<^verbatim>\<open>GetOffset\<close>, whose
  answer (an offset or an error) is taken as given.
\<close>

record Client =
  GetOffset :: "string \<Rightarrow> int32 \<Rightarrow> int64 \<Rightarrow> error + int64"

section \<open>Messages, fetch requests and fetch results\<close>

type_synonym bytes = "8 word list"

record instanceID =
  topic :: string
  partition :: int32

text \<open>\<^verbatim>\<open>consumer.Message\<close>, the record a stream hands to its user.\<close>

record Message =
  Topic :: string
  Partition :: int32
  Key :: bytes
  Value :: bytes
  Offset :: int64
  HighWaterMark :: int64

text \<open>
  One entry of \<^verbatim>\<open>msgBlock.Messages()\<close>: the offset, key and value of a record of the
  broker's message set.
\<close>

record MessageBlock =
  mb_Offset :: int64
  mb_Key :: bytes
  mb_Value :: bytes

text \<open>
  \<^verbatim>\<open>block.MsgSet\<close>: \<open>MsgSet_Messages\<close> has one entry per element of
  \<^verbatim>\<open>block.MsgSet.Messages\<close>, holding what \<^verbatim>\<open>Messages()\<close> returns for it (the records of a
  compressed set, or the element itself).
\<close>

record FetchResponseBlock =
  blk_Err :: KError
  HighWaterMarkOffset :: int64
  MsgSet_Messages :: "MessageBlock list list"
  PartialTrailingMessage :: bool

text \<open>A fetch response maps a topic and partition to its block (\<^verbatim>\<open>GetBlock\<close>).\<close>

type_synonym FetchResponse = "((string \<times> int32) \<times> FetchResponseBlock) list"

definition GetBlock :: "FetchResponse \<Rightarrow> string \<Rightarrow> int32 \<Rightarrow> FetchResponseBlock option" where
  "GetBlock response t p = map_of response (t, p)"

record fetchRes =
  Response :: "FetchResponse option"
  Err :: "error option"

text \<open>
  A channel of the program is named by a number. \<open>ReplyToCh\<close> is the channel the
  executor answers on.
\<close>

type_synonym chan = nat

record fetchReq =
  fr_Topic :: string
  fr_Partition :: int32
  fr_Offset :: int64
  fr_MaxBytes :: int32
  fr_Lag :: int64
  ReplyToCh :: chan

text \<open>\<^verbatim>\<open>Err\<close>, the error a stream puts on its errors channel.\<close>

record ConsumerErr =
  err_Topic :: string
  err_Partition :: int32
  err_Err :: error

section \<open>The message stream record and the factory\<close>

text \<open>
  The fields of \<^verbatim>\<open>msgStream\<close>. \<open>ref\<close> stands for the pointer identity of the stream,
  \<open>cfg\<close> for \<^verbatim>\<open>ms.f.saramaCfg\<close>. A channel variable that may be nil is an option.
  \<open>errorsCh\<close> is the content of the buffered errors channel (capacity
  \<open>ChannelBufferSize\<close>), \<open>messagesCh\<close> the messages sent on the messages channel so far,
  in order. \<open>nilOrReassignRetryTimerCh\<close> is true while the variable holds a timer channel.
  Actor identifiers and logging carry no behaviour and are left out.
\<close>

record msgStream =
  ref :: nat
  cfg :: Config
  id :: instanceID
  fetchSize :: int32
  offset :: int64
  lag :: int64
  messagesCh :: "Message list"
  errorsCh :: "ConsumerErr list"
  assignedBrokerRequestCh :: "chan option"
  nilOrBrokerRequestsCh :: "chan option"
  nilOrReassignRetryTimerCh :: bool
  lastReassignTime :: time

text \<open>What the factory and its streams send to the mapper, in order. The mapper receives the
  stream's pointer: its identity, and with it the partition the stream was created for.\<close>

type_synonym worker = "nat \<times> instanceID"

datatype mapper_event = WorkerSpawned worker | WorkerStopped worker | WorkerReassign worker

definition worker_of :: "msgStream \<Rightarrow> worker" where
  "worker_of ms = (ref ms, id ms)"

text \<open>
  The factory: its client, its configuration, the children map and, for the mapper's
  channels, the list of what has been sent to them. \<open>next_ref\<close> is the next fresh
  stream identity (the allocator behind \<^verbatim>\<open>&msgStream{...}\<close>).
\<close>

record factory =
  client :: Client
  saramaCfg :: Config
  children :: "instanceID \<rightharpoonup> msgStream"
  mapper_events :: "mapper_event list"
  next_ref :: nat

definition SpawnFactory :: "Client \<Rightarrow> Config \<Rightarrow> factory" where
  "SpawnFactory c conf =
     \<lparr>client = c, saramaCfg = conf, children = Map.empty, mapper_events = [], next_ref = 0\<rparr>"

text \<open>
  \<^verbatim>\<open>chooseStartingOffset\<close> returns Go's pair of an offset and an error: the offset is 0
  next to an error.
\<close>

definition chooseStartingOffset ::
  "factory \<Rightarrow> string \<Rightarrow> int32 \<Rightarrow> int64 \<Rightarrow> int64 \<times> error option" where
  "chooseStartingOffset f t p off =
     (case GetOffset (client f) t p OffsetNewest of
        Inl err \<Rightarrow> (0, Some err)
      | Inr newestOffset \<Rightarrow>
          (case GetOffset (client f) t p OffsetOldest of
             Inl err \<Rightarrow> (0, Some err)
           | Inr oldestOffset \<Rightarrow>
               if off = OffsetNewest \<or> newestOffset <s off then (newestOffset, None)
               else if off = OffsetOldest \<or> off <s oldestOffset then (oldestOffset, None)
               else (off, None)))"

definition spawnMsgStream :: "factory \<Rightarrow> instanceID \<Rightarrow> int64 \<Rightarrow> msgStream" where
  "spawnMsgStream f i off =
     \<lparr>ref = next_ref f, cfg = saramaCfg f, id = i,
      fetchSize = Fetch_Default (saramaCfg f), offset = off, lag = 0,
      messagesCh = [], errorsCh = [],
      assignedBrokerRequestCh = None, nilOrBrokerRequestsCh = None,
      nilOrReassignRetryTimerCh = False, lastReassignTime = zeroTime\<rparr>"

definition AlreadyConsuming :: error where
  "AlreadyConsuming = ConfigurationError ''That topic/partition is already being consumed''"

text \<open>
  \<^verbatim>\<open>SpawnMessageStream\<close> returns Go's triple (stream or nil, offset, error or nil) and
  the factory after the call.
\<close>

definition SpawnMessageStream ::
  "factory \<Rightarrow> string \<Rightarrow> int32 \<Rightarrow> int64 \<Rightarrow> (msgStream option \<times> int64 \<times> error option) \<times> factory" where
  "SpawnMessageStream f t p off =
     (case chooseStartingOffset f t p off of
        (concreteOffset, Some err) \<Rightarrow> ((None, OffsetNewest, Some err), f)
      | (concreteOffset, None) \<Rightarrow>
          (let i = \<lparr>topic = t, partition = p\<rparr> in
           case children f i of
             Some other \<Rightarrow> ((None, OffsetNewest, Some AlreadyConsuming), f)
           | None \<Rightarrow>
               (let ms = spawnMsgStream f i concreteOffset in
                ((Some ms, concreteOffset, None),
                 f\<lparr>mapper_events := mapper_events f @ [WorkerSpawned (worker_of ms)],
                   children := (children f)(i \<mapsto> ms),
                   next_ref := Suc (next_ref f)\<rparr>))))"

text \<open>
  \<^verbatim>\<open>msgStream.Stop\<close>, as far as the factory sees it: after the stream's loop has ended the
  entry of its partition is deleted and the mapper is told.
\<close>

definition msgStream_Stop :: "factory \<Rightarrow> msgStream \<Rightarrow> factory" where
  "msgStream_Stop f ms =
     f\<lparr>children := (children f)(id ms := None),
       mapper_events := mapper_events f @ [WorkerStopped (worker_of ms)]\<rparr>"

text \<open>
  The calls a factory receives over its life. A spawn reads the cluster's boundaries of
  that moment, so each spawn carries the client's answers of its own time. \<^verbatim>\<open>Stop\<close> is
  called on a stream that this factory has spawned and that has not been stopped yet (a
  second \<^verbatim>\<open>Stop\<close> panics on the closed \<^verbatim>\<open>closingCh\<close>): any other call gives \<open>None\<close>.
\<close>

definition live :: "factory \<Rightarrow> worker list" where
  "live f = filter (\<lambda>w. WorkerStopped w \<notin> set (mapper_events f))
              (concat (map (\<lambda>e. case e of WorkerSpawned w \<Rightarrow> [w] | _ \<Rightarrow> []) (mapper_events f)))"

datatype factory_call = CallSpawn Client string int32 int64 | CallStop msgStream

fun factory_calls :: "factory_call list \<Rightarrow> factory \<Rightarrow> factory option" where
  "factory_calls [] f = Some f"
| "factory_calls (CallSpawn c t p off # cs) f =
     factory_calls cs (snd (SpawnMessageStream (f\<lparr>client := c\<rparr>) t p off))"
| "factory_calls (CallStop ms # cs) f =
     (if worker_of ms \<in> set (live f) then factory_calls cs (msgStream_Stop f ms) else None)"

section \<open>The message stream's loop\<close>

text \<open>
  \<^verbatim>\<open>reportError\<close>: nothing unless \<^verbatim>\<open>Consumer.Return.Errors\<close> is set; the send does not
  block, so the error is dropped when the errors channel is full.
\<close>

definition reportError :: "msgStream \<Rightarrow> error \<Rightarrow> msgStream" where
  "reportError ms err =
     (if \<not> Return_Errors (cfg ms) then ms
      else if length (errorsCh ms) < ChannelBufferSize (cfg ms)
      then ms\<lparr>errorsCh := errorsCh ms @
             [\<lparr>err_Topic = topic (id ms), err_Partition = partition (id ms), err_Err = err\<rparr>]\<rparr>
      else ms)"

definition consumerMessage :: "msgStream \<Rightarrow> FetchResponseBlock \<Rightarrow> MessageBlock \<Rightarrow> Message" where
  "consumerMessage ms block msg =
     \<lparr>Topic = topic (id ms), Partition = partition (id ms),
      Key = mb_Key msg, Value = mb_Value msg,
      Offset = mb_Offset msg, HighWaterMark = HighWaterMarkOffset block\<rparr>"

text \<open>
  The two nested loops of \<^verbatim>\<open>parseFetchResult\<close> over the stream and the messages fetched
  so far: the inner one over \<^verbatim>\<open>msgBlock.Messages()\<close>, the outer one over
  \<^verbatim>\<open>block.MsgSet.Messages\<close>.
\<close>

fun parse_messages ::
  "FetchResponseBlock \<Rightarrow> MessageBlock list \<Rightarrow> msgStream \<times> Message list \<Rightarrow> msgStream \<times> Message list" where
  "parse_messages block [] (ms, fetched) = (ms, fetched)"
| "parse_messages block (msg # rest) (ms, fetched) =
     (if mb_Offset msg <s offset ms then parse_messages block rest (ms, fetched)
      else parse_messages block rest
             (ms\<lparr>lag := HighWaterMarkOffset block - mb_Offset msg\<rparr>,
              fetched @ [consumerMessage ms block msg]))"

fun parse_blocks ::
  "FetchResponseBlock \<Rightarrow> MessageBlock list list \<Rightarrow> msgStream \<times> Message list \<Rightarrow> msgStream \<times> Message list" where
  "parse_blocks block [] st = st"
| "parse_blocks block (msgBlock # rest) st = parse_blocks block rest (parse_messages block msgBlock st)"

text \<open>\<^verbatim>\<open>parseFetchResult\<close> returns the stream as it leaves it, the messages and the error.\<close>

definition parseFetchResult :: "msgStream \<Rightarrow> fetchRes \<Rightarrow> msgStream \<times> Message list \<times> error option" where
  "parseFetchResult ms fetchResult =
     (case Err fetchResult of
        Some e \<Rightarrow> (ms, [], Some e)
      | None \<Rightarrow>
     (case Response fetchResult of
        None \<Rightarrow> (ms, [], Some ErrIncompleteResponse)
      | Some response \<Rightarrow>
     (case GetBlock response (topic (id ms)) (partition (id ms)) of
        None \<Rightarrow> (ms, [], Some ErrIncompleteResponse)
      | Some block \<Rightarrow>
          if blk_Err block \<noteq> ErrNoError then (ms, [], Some (KErr (blk_Err block)))
          else if length (MsgSet_Messages block) = 0 then
            (if PartialTrailingMessage block then
               (if 0 <s Fetch_Max (cfg ms) \<and> fetchSize ms = Fetch_Max (cfg ms)
                then (let ms1 = reportError ms (KErr ErrMessageTooLarge)
                      in (ms1\<lparr>offset := offset ms1 + 1\<rparr>, [], None))
                else (let ms1 = ms\<lparr>fetchSize := fetchSize ms * 2\<rparr>
                      in if 0 <s Fetch_Max (cfg ms1) \<and> Fetch_Max (cfg ms1) <s fetchSize ms1
                         then (ms1\<lparr>fetchSize := Fetch_Max (cfg ms1)\<rparr>, [], None)
                         else (ms1, [], None)))
             else (ms, [], None))
          else
            (let ms1 = ms\<lparr>fetchSize := Fetch_Default (cfg ms)\<rparr>;
                 (ms2, fetchedMessages) = parse_blocks block (MsgSet_Messages block) (ms1, [])
             in if length fetchedMessages = 0 then (ms2, [], Some ErrIncompleteResponse)
                else (ms2, fetchedMessages, None)))))"

section \<open>The event loop of a stream\<close>

text \<open>
  The local variables of \<^verbatim>\<open>run\<close> next to the stream itself. A variable that holds either
  nil or one fixed channel is a flag. \<open>requests\<close> lists the fetch requests sent so far with
  the channel each went to, \<open>to_mapper\<close> what the stream has sent to the mapper.
  \<open>finished\<close> is set when the loop has left for \<^verbatim>\<open>done\<close>; \<open>panicked\<close> when it has met a
  nil message.
\<close>

record run_state =
  stream :: msgStream
  fetchResultCh :: chan
  nilOrFetchResultsCh :: bool
  nilOrMessagesCh :: bool
  fetchedMessages :: "Message list"
  currMessage :: "Message option"
  currMessageIdx :: nat
  requests :: "(chan \<times> fetchReq) list"
  to_mapper :: "mapper_event list"
  finished :: bool
  panicked :: bool

definition run_init :: "msgStream \<Rightarrow> chan \<Rightarrow> run_state" where
  "run_init m ch =
     \<lparr>stream = m, fetchResultCh = ch, nilOrFetchResultsCh = False, nilOrMessagesCh = False,
      fetchedMessages = [], currMessage = None, currMessageIdx = 0,
      requests = [], to_mapper = [], finished = False, panicked = False\<rparr>"

text \<open>\<^verbatim>\<open>triggerOrScheduleReassign\<close>; \<open>now\<close> is what \<^verbatim>\<open>time.Now().UTC()\<close> returns.\<close>

definition triggerOrScheduleReassign :: "time \<Rightarrow> run_state \<Rightarrow> run_state" where
  "triggerOrScheduleReassign now s =
     (let m1 = (stream s)\<lparr>assignedBrokerRequestCh := None\<rparr>;
          s1 = (if Retry_Backoff (cfg m1) < time_Sub now (lastReassignTime m1)
                then s\<lparr>stream := m1\<lparr>lastReassignTime := now\<rparr>,
                       to_mapper := to_mapper s @ [WorkerReassign (worker_of m1)]\<rparr>
                else s\<lparr>stream := m1\<rparr>)
      in s1\<lparr>stream := (stream s1)\<lparr>nilOrReassignRetryTimerCh := True\<rparr>\<rparr>)"

text \<open>The fetch request the loop offers on \<^verbatim>\<open>nilOrBrokerRequestsCh\<close>.\<close>

definition request_of :: "run_state \<Rightarrow> fetchReq" where
  "request_of s =
     \<lparr>fr_Topic = topic (id (stream s)), fr_Partition = partition (id (stream s)),
      fr_Offset = offset (stream s), fr_MaxBytes = fetchSize (stream s),
      fr_Lag = lag (stream s), ReplyToCh = fetchResultCh s\<rparr>"

text \<open>
  One event per case of the \<^verbatim>\<open>select\<close>: an assignment arrives (nil or an executor's
  request channel), the offered fetch request is taken, a fetch result arrives, the
  current message is taken by the messages channel, the retry timer fires, the closing
  channel is closed. The events that call \<^verbatim>\<open>triggerOrScheduleReassign\<close> carry the clock.
\<close>

datatype event =
    Assignment "chan option" time
  | RequestSent
  | FetchResult fetchRes time
  | MessageSent
  | RetryTimer
  | Closing

text \<open>
  One turn of the loop. A case on a nil channel is never chosen: such an event leaves the
  state as it is.
\<close>

fun run_step :: "event \<Rightarrow> run_state \<Rightarrow> run_state" where
  "run_step (Assignment bw now) s =
     (case bw of
        None \<Rightarrow> triggerOrScheduleReassign now s
      | Some requestsCh \<Rightarrow>
          (let m1 = (stream s)\<lparr>assignedBrokerRequestCh := Some requestsCh,
                                nilOrReassignRetryTimerCh := False\<rparr>
           in if \<not> nilOrFetchResultsCh s \<and> \<not> nilOrMessagesCh s
              then s\<lparr>stream := m1\<lparr>nilOrBrokerRequestsCh := assignedBrokerRequestCh m1\<rparr>\<rparr>
              else s\<lparr>stream := m1\<rparr>))"
| "run_step RequestSent s =
     (case nilOrBrokerRequestsCh (stream s) of
        None \<Rightarrow> s
      | Some ch \<Rightarrow>
          s\<lparr>requests := requests s @ [(ch, request_of s)],
            stream := (stream s)\<lparr>nilOrBrokerRequestsCh := None\<rparr>,
            nilOrFetchResultsCh := True\<rparr>)"
| "run_step (FetchResult result now) s =
     (if \<not> nilOrFetchResultsCh s then s
      else
        (let s1 = s\<lparr>nilOrFetchResultsCh := False\<rparr>
         in case parseFetchResult (stream s1) result of
              (m1, fetched, Some err) \<Rightarrow>
                (let s2 = s1\<lparr>stream := reportError m1 err, fetchedMessages := fetched\<rparr>
                 in if err = KErr ErrOffsetOutOfRange then s2\<lparr>finished := True\<rparr>
                    else triggerOrScheduleReassign now s2)
            | (m1, fetched, None) \<Rightarrow>
                (let s2 = s1\<lparr>stream := m1, fetchedMessages := fetched\<rparr>
                 in if length fetched = 0
                    then s2\<lparr>stream := m1\<lparr>nilOrBrokerRequestsCh := assignedBrokerRequestCh m1\<rparr>\<rparr>
                    else s2\<lparr>currMessageIdx := 0, currMessage := Some (fetched ! 0),
                            nilOrMessagesCh := True\<rparr>)))"
| "run_step MessageSent s =
     (if \<not> nilOrMessagesCh s then s
      else
        (case currMessage s of
           None \<Rightarrow> s\<lparr>finished := True, panicked := True\<rparr>
         | Some m \<Rightarrow>
             (let s1 = s\<lparr>stream := (stream s)\<lparr>messagesCh := messagesCh (stream s) @ [m],
                                               offset := Offset m + 1\<rparr>,
                         currMessageIdx := currMessageIdx s + 1\<rparr>
              in if currMessageIdx s1 < length (fetchedMessages s1)
                 then s1\<lparr>currMessage := Some (fetchedMessages s1 ! currMessageIdx s1)\<rparr>
                 else s1\<lparr>nilOrMessagesCh := False,
                         stream := (stream s1)\<lparr>nilOrBrokerRequestsCh :=
                                                 assignedBrokerRequestCh (stream s1)\<rparr>\<rparr>)))"
| "run_step RetryTimer s =
     (if \<not> nilOrReassignRetryTimerCh (stream s) then s
      else s\<lparr>to_mapper := to_mapper s @ [WorkerReassign (worker_of (stream s))],
             stream := (stream s)\<lparr>nilOrReassignRetryTimerCh := True\<rparr>\<rparr>)"
| "run_step Closing s = s\<lparr>finished := True\<rparr>"

text \<open>The loop over the events that occur, until it leaves for \<^verbatim>\<open>done\<close>.\<close>

fun run :: "event list \<Rightarrow> run_state \<Rightarrow> run_state" where
  "run [] s = s"
| "run (e # es) s = (if finished s then s else run es (run_step e s))"

section \<open>The broker executor\<close>

text \<open>
  \<^verbatim>\<open>runAggregator\<close>. Its events are the cases of its \<^verbatim>\<open>select\<close>: a fetch request is
  received from \<^verbatim>\<open>requestsCh\<close>, \<^verbatim>\<open>requestsCh\<close> is found closed, the executor loop takes
  the offered batch. \<open>handed_over\<close> lists the batches sent on \<^verbatim>\<open>batchRequestsCh\<close>;
  \<open>returned\<close> is set when the function has returned (and with it closed
  \<^verbatim>\<open>batchRequestsCh\<close>). The batch can only be taken while \<^verbatim>\<open>nilOrBatchRequestCh\<close> is not
  nil.
\<close>

datatype aggregator_event = RequestReceived fetchReq | RequestsChClosed | BatchTaken

record aggregator_state =
  batchRequest :: "fetchReq list"
  nilOrBatchRequestCh :: bool
  handed_over :: "fetchReq list list"
  returned :: bool

definition aggregator_init :: aggregator_state where
  "aggregator_init =
     \<lparr>batchRequest = [], nilOrBatchRequestCh = False, handed_over = [], returned = False\<rparr>"

fun aggregator_step :: "aggregator_event \<Rightarrow> aggregator_state \<Rightarrow> aggregator_state" where
  "aggregator_step (RequestReceived fr) a =
     a\<lparr>batchRequest := batchRequest a @ [fr], nilOrBatchRequestCh := True\<rparr>"
| "aggregator_step RequestsChClosed a = a\<lparr>returned := True\<rparr>"
| "aggregator_step BatchTaken a =
     (if nilOrBatchRequestCh a
      then a\<lparr>handed_over := handed_over a @ [batchRequest a], batchRequest := [],
             nilOrBatchRequestCh := False\<rparr>
      else a)"

fun runAggregator :: "aggregator_event list \<Rightarrow> aggregator_state \<Rightarrow> aggregator_state" where
  "runAggregator [] a = a"
| "runAggregator (e # es) a = (if returned a then a else runAggregator es (aggregator_step e a))"

text \<open>
  Go's division of durations truncates towards zero, and the conversion to \<^verbatim>\<open>int32\<close> keeps
  the low 32 bits.
\<close>

definition go_div :: "int \<Rightarrow> int \<Rightarrow> int" where
  "go_div a b = sgn a * sgn b * (\<bar>a\<bar> div \<bar>b\<bar>)"

definition Millisecond :: Duration where
  "Millisecond = 1000000"

text \<open>The wire request: \<^verbatim>\<open>sarama.FetchRequest\<close> with the blocks added to it, in order.\<close>

record FetchRequest =
  MinBytes :: int32
  req_MaxWaitTime :: int32
  req_blocks :: "(string \<times> int32 \<times> int64 \<times> int32) list"

text \<open>
  \<^verbatim>\<open>runExecutor\<close>. \<open>replies\<close> lists what has been sent on reply channels (the channel and
  the result), \<open>wire_calls\<close> the requests passed to \<^verbatim>\<open>be.conn.Fetch\<close>, \<open>conn_closes\<close> counts
  the calls of \<^verbatim>\<open>be.conn.Close\<close>.
\<close>

record executor_state =
  lastErr :: "error option"
  lastErrTime :: time
  replies :: "(chan \<times> fetchRes) list"
  wire_calls :: "FetchRequest list"
  conn_closes :: nat

definition executor_init :: executor_state where
  "executor_init =
     \<lparr>lastErr = None, lastErrTime = zeroTime, replies = [], wire_calls = [], conn_closes = 0\<rparr>"

text \<open>
  What one turn of the loop meets: the batch received, the clock at the test of the
  cooldown, what \<^verbatim>\<open>be.conn.Fetch\<close> returns if it is called, and the clock after a failed
  call.
\<close>

record batch_turn =
  fetchRequests :: "fetchReq list"
  turn_now :: time
  fetch_outcome :: "FetchResponse option \<times> error option"
  turn_err_now :: time

definition reply_all :: "fetchReq list \<Rightarrow> fetchRes \<Rightarrow> (chan \<times> fetchRes) list" where
  "reply_all frs res = map (\<lambda>fr. (ReplyToCh fr, res)) frs"

definition executor_turn :: "Config \<Rightarrow> batch_turn \<Rightarrow> executor_state \<Rightarrow> executor_state" where
  "executor_turn config t st =
     (if time_Sub (turn_now t) (lastErrTime st) < Retry_Backoff config
      then st\<lparr>replies := replies st @ reply_all (fetchRequests t) \<lparr>Response = None, Err = lastErr st\<rparr>\<rparr>
      else
        (let req = \<lparr>MinBytes = Fetch_Min config,
                    req_MaxWaitTime = word_of_int (go_div (MaxWaitTime config) Millisecond),
                    req_blocks = map (\<lambda>fr. (fr_Topic fr, fr_Partition fr, fr_Offset fr, fr_MaxBytes fr))
                                  (fetchRequests t)\<rparr>;
             res = fst (fetch_outcome t);
             st1 = st\<lparr>wire_calls := wire_calls st @ [req], lastErr := snd (fetch_outcome t)\<rparr>;
             st2 = (if lastErr st1 \<noteq> None
                    then st1\<lparr>lastErrTime := turn_err_now t, conn_closes := Suc (conn_closes st1)\<rparr>
                    else st1)
         in st2\<lparr>replies := replies st2 @ reply_all (fetchRequests t) \<lparr>Response = res, Err = lastErr st2\<rparr>\<rparr>))"

fun runExecutor :: "Config \<Rightarrow> batch_turn list \<Rightarrow> executor_state \<Rightarrow> executor_state" where
  "runExecutor config [] st = st"
| "runExecutor config (t # ts) st = runExecutor config ts (executor_turn config t st)"

text \<open>
  The two loops together: the executor loop receives the batches the aggregator has
  handed over, and meets for each the clock and the broker's answer of its time.
\<close>

definition turns_of :: "fetchReq list list \<Rightarrow> (time \<times> (FetchResponse option \<times> error option) \<times> time) list
    \<Rightarrow> batch_turn list" where
  "turns_of batches world =
     map (\<lambda>(b, (n, out, en)). \<lparr>fetchRequests = b, turn_now = n, fetch_outcome = out, turn_err_now = en\<rparr>)
       (zip batches world)"

definition brokerExecutor_replies ::
  "Config \<Rightarrow> aggregator_event list \<Rightarrow> (time \<times> (FetchResponse option \<times> error option) \<times> time) list
    \<Rightarrow> (chan \<times> fetchRes) list" where
  "brokerExecutor_replies config evs world =
     replies (runExecutor config (turns_of (handed_over (runAggregator evs aggregator_init)) world)
                executor_init)"

section \<open>The producer\<close>

text \<open>
  \<^verbatim>\<open>sarama.ProducerMessage\<close>, as far as the producer uses it. \<open>Metadata\<close> is the reply
  channel when the field holds a \<^verbatim>\<open>chan error\<close> (a message of \<^verbatim>\<open>Produce\<close>), and \<open>None\<close>
  otherwise (a message of \<^verbatim>\<open>AsyncProduce\<close>).
\<close>

datatype Encoder = StringEncoder string | ByteEncoder bytes

record ProducerMessage =
  pm_Topic :: string
  pm_Key :: "Encoder option"
  pm_Value :: "Encoder option"
  Metadata :: "chan option"

record ProduceResult =
  Msg :: ProducerMessage
  res_Err :: "error option"



text \<open>What the dispatcher sends out: an error (or nil) on a reply channel, a result on the
  dead message channel.\<close>

datatype producer_output = ReplySent chan "error option" | DeadMessageSent chan ProduceResult


text \<open>
  \<^verbatim>\<open>dispatcher\<close>. The phases are its three loops: the normal one, the one after the label
  \<^verbatim>\<open>gracefulShutdown\<close>, the one after \<^verbatim>\<open>shutdownNow\<close>; then it has returned, or it has
  panicked on the nil result a closed \<^verbatim>\<open>resultCh\<close> yields in the first two loops.
  \<open>prod_input\<close> lists what has been sent to the sink's input, \<open>outputs\<close> what
  \<^verbatim>\<open>handleProduceResult\<close> has sent, \<open>async_closed\<close> is set by \<^verbatim>\<open>AsyncClose\<close>.
  \<^verbatim>\<open>pendingMsgCount\<close> is a Go \<^verbatim>\<open>int\<close>; it moves by one per event, so its 64 bits never
  overflow and it is an integer here.
\<close>

datatype dispatcher_phase = Running | GracefulShutdown | ShutdownNow | Stopped | Panicked

record dispatcher_state =
  phase :: dispatcher_phase
  nilOrDispatcherCh :: bool
  nilOrProdInputCh :: bool
  pendingMsgCount :: int
  prodMsg :: "ProducerMessage option"
  prod_input :: "ProducerMessage option list"
  outputs :: "producer_output list"
  async_closed :: bool



text \<open>The loop condition \<^verbatim>\<open>pendingMsgCount > 0\<close> of the graceful loop, and the code after
  \<^verbatim>\<open>shutdownNow\<close> up to its loop.\<close>

definition graceful_loop :: "dispatcher_state \<Rightarrow> dispatcher_state" where
  "graceful_loop s =
     (if 0 < pendingMsgCount s then s\<lparr>phase := GracefulShutdown\<rparr>
      else s\<lparr>phase := ShutdownNow, async_closed := True\<rparr>)"




section \<open>Notions and values used to state the properties of the factory\<close>

text \<open>A literal offset is one that is neither of the two constants.\<close>

definition literal :: "int64 \<Rightarrow> bool" where
  "literal off = (off \<noteq> OffsetNewest \<and> off \<noteq> OffsetOldest)"

text \<open>
  A configuration with the client library's defaults for the fetch sizes (no maximum), and
  a cluster whose partitions all hold the offsets from 100 (oldest) to 200 (newest).
\<close>

definition ex_cfg :: Config where
  "ex_cfg = \<lparr>Fetch_Min = 1, Fetch_Default = 32768, Fetch_Max = 0, MaxWaitTime = 250000000,
             Retry_Backoff = 2000000000,
             Return_Errors = True, ChannelBufferSize = 64\<rparr>"

definition ex_client :: Client where
  "ex_client = \<lparr>GetOffset = (\<lambda>t p kind. if kind = OffsetNewest then Inr 200 else Inr 100)\<rparr>"

definition ex_factory :: factory where
  "ex_factory = SpawnFactory ex_client ex_cfg"

text \<open>The same factory after it has spawned the stream of partition 0 of topic \<open>t\<close>.\<close>

definition ex_factory1 :: factory where
  "ex_factory1 = snd (SpawnMessageStream ex_factory ''t'' 0 50)"

text \<open>
  A cluster whose answers cross: the newest offset was read as 50, and by the time the
  oldest offset is read the log has grown and its old part is gone, so the oldest offset
  is 100. With it, a factory that has spawned nothing yet.
\<close>

definition ex_race_client :: Client where
  "ex_race_client = \<lparr>GetOffset = (\<lambda>t p kind. if kind = OffsetNewest then Inr 50 else Inr 100)\<rparr>"

definition ex_race_factory :: factory where
  "ex_race_factory = SpawnFactory ex_race_client ex_cfg"

text \<open>A cluster that cannot be reached: every boundary lookup fails.\<close>

definition ex_down_client :: Client where
  "ex_down_client = \<lparr>GetOffset = (\<lambda>t p kind. Inl (ErrOther ''broker down''))\<rparr>"

text \<open>
  What holds of a factory between calls: no two live streams have the same partition,
  every live stream is the one registered for its partition, and every stream that was
  ever spawned has an identity below the next fresh one.
\<close>

definition factory_inv :: "factory \<Rightarrow> bool" where
  "factory_inv f =
     (distinct (map snd (live f))
      \<and> (\<forall>w \<in> set (live f). \<exists>ms. children f (snd w) = Some ms \<and> worker_of ms = w)
      \<and> (\<forall>w. WorkerSpawned w \<in> set (mapper_events f) \<or> WorkerStopped w \<in> set (mapper_events f)
            \<longrightarrow> fst w < next_ref f))"

section \<open>Notions used to state the properties of a stream\<close>

text \<open>
  The block \<^verbatim>\<open>parseFetchResult\<close> reaches for the stream of partition \<open>i\<close>, when the
  fetch result carries no error, a response and a block for that partition.
\<close>

definition block_of :: "instanceID \<Rightarrow> fetchRes \<Rightarrow> FetchResponseBlock option" where
  "block_of i fetchResult =
     (case Err fetchResult of
        Some e \<Rightarrow> None
      | None \<Rightarrow>
          (case Response fetchResult of
             None \<Rightarrow> None
           | Some response \<Rightarrow> GetBlock response (topic i) (partition i)))"

text \<open>The records of a message set that the filter of \<^verbatim>\<open>parseFetchResult\<close> keeps.\<close>

definition kept :: "msgStream \<Rightarrow> MessageBlock list \<Rightarrow> MessageBlock list" where
  "kept ms msgs = filter (\<lambda>msg. \<not> mb_Offset msg <s offset ms) msgs"

text \<open>The lag the parsing loops leave: that of the last record kept, if there is one.\<close>

definition lag_after :: "msgStream \<Rightarrow> FetchResponseBlock \<Rightarrow> MessageBlock list \<Rightarrow> int64" where
  "lag_after ms block msgs =
     (if kept ms msgs = [] then lag ms
      else HighWaterMarkOffset block - mb_Offset (last (kept ms msgs)))"

text \<open>The offsets of the records a fetch result holds for partition \<open>i\<close>, in the order sent.\<close>

definition offsets_of :: "instanceID \<Rightarrow> fetchRes \<Rightarrow> int64 list" where
  "offsets_of i fetchResult =
     (case block_of i fetchResult of
        None \<Rightarrow> []
      | Some block \<Rightarrow> map mb_Offset (concat (MsgSet_Messages block)))"

text \<open>
  A stream as the factory creates it, at offset 100; and the same stream with a maximal
  fetch size of 65536 which it has reached and with error reporting switched off.
\<close>

definition ex_ms :: msgStream where
  "ex_ms = spawnMsgStream ex_factory \<lparr>topic = ''t'', partition = 0\<rparr> 100"


text \<open>
  Fetch results for that partition, all with high water mark 105: no record and a partial
  trailing one; the records 100, 101, 102; the records 102, 100 in this order.
\<close>

definition ex_record :: "int64 \<Rightarrow> MessageBlock" where
  "ex_record off = \<lparr>mb_Offset = off, mb_Key = [], mb_Value = []\<rparr>"

definition ex_result :: "MessageBlock list list \<Rightarrow> bool \<Rightarrow> fetchRes" where
  "ex_result sets partial =
     \<lparr>Response = Some [((''t'', 0), \<lparr>blk_Err = ErrNoError, HighWaterMarkOffset = 105,
                                     MsgSet_Messages = sets, PartialTrailingMessage = partial\<rparr>)],
      Err = None\<rparr>"

definition ex_partial :: fetchRes where
  "ex_partial = ex_result [] True"

definition ex_batch :: fetchRes where
  "ex_batch = ex_result [[ex_record 100], [ex_record 101], [ex_record 102]] False"

definition ex_unordered :: fetchRes where
  "ex_unordered = ex_result [[ex_record 102], [ex_record 100]] False"

text \<open>The loop of the example stream once executor 7 has been assigned and asked.\<close>

definition ex_waiting :: run_state where
  "ex_waiting = run [Assignment (Some 7) 0, RequestSent] (run_init ex_ms 9)"

text \<open>
  The messages of the current batch that the loop has still to send, and what it means
  for a list of offsets to be strictly increasing (as signed numbers).
\<close>

definition pending :: "run_state \<Rightarrow> Message list" where
  "pending s = (if nilOrMessagesCh s then drop (currMessageIdx s) (fetchedMessages s) else [])"

definition ascending :: "int64 list \<Rightarrow> bool" where
  "ascending offs = sorted_wrt (<) (map sint offs)"

text \<open>
  The condition on an event of a run with \<open>n\<close> events to go: a fetch result lists the
  records of the partition in strictly increasing offset order, and every offset is at
  least \<open>n\<close> below the largest \<^verbatim>\<open>int64\<close>, so that no offset computed in the run overflows.
\<close>

definition event_ok :: "int \<Rightarrow> instanceID \<Rightarrow> event \<Rightarrow> bool" where
  "event_ok n i e =
     (case e of
        FetchResult r now \<Rightarrow>
          ascending (offsets_of i r) \<and> list_all (\<lambda>off. sint off + n < 2 ^ 63) (offsets_of i r)
      | _ \<Rightarrow> True)"

text \<open>
  What holds of the loop between events, with \<open>n\<close> events to go: at most one of the three
  phases (offering a request, awaiting a result, sending messages) is on; while sending,
  the current message is the one at the current index; the messages sent so far have
  strictly increasing offsets, all below the stream's offset; the messages still to send
  have strictly increasing offsets, none below the stream's offset; and no offset is
  within \<open>n\<close> of the largest \<^verbatim>\<open>int64\<close>.
\<close>

definition stream_inv :: "int \<Rightarrow> run_state \<Rightarrow> bool" where
  "stream_inv n s =
     (\<not> (nilOrFetchResultsCh s \<and> nilOrMessagesCh s)
      \<and> (nilOrBrokerRequestsCh (stream s) = None \<or> (\<not> nilOrFetchResultsCh s \<and> \<not> nilOrMessagesCh s))
      \<and> (\<not> nilOrMessagesCh s \<or>
           (currMessageIdx s < length (fetchedMessages s)
            \<and> currMessage s = Some (fetchedMessages s ! currMessageIdx s)))
      \<and> ascending (map Offset (messagesCh (stream s)))
      \<and> list_all (\<lambda>m. sint (Offset m) < sint (offset (stream s))) (messagesCh (stream s))
      \<and> ascending (map Offset (pending s))
      \<and> list_all (\<lambda>m. sint (offset (stream s)) \<le> sint (Offset m) \<and> sint (Offset m) + n < 2 ^ 63)
           (pending s)
      \<and> sint (offset (stream s)) + n < 2 ^ 63)"

text \<open>
  A fetch request of the example stream with a given reply channel, and a turn of the
  executor loop at a given time in which the broker connection fails.
\<close>

definition ex_req :: "chan \<Rightarrow> fetchReq" where
  "ex_req ch = \<lparr>fr_Topic = ''t'', fr_Partition = 0, fr_Offset = 100, fr_MaxBytes = 32768, fr_Lag = 0,
                ReplyToCh = ch\<rparr>"

definition ex_turn :: "fetchReq list \<Rightarrow> time \<Rightarrow> batch_turn" where
  "ex_turn frs n = \<lparr>fetchRequests = frs, turn_now = n,
                    fetch_outcome = (None, Some (ErrOther ''connection reset'')), turn_err_now = n + 5\<rparr>"





text \<open>The fetch requests the aggregator receives before it finds its input closed.\<close>

definition received_requests :: "aggregator_event list \<Rightarrow> fetchReq list" where
  "received_requests evs =
     concat (map (\<lambda>e. case e of RequestReceived fr \<Rightarrow> [fr] | _ \<Rightarrow> [])
       (takeWhile (\<lambda>e. e \<noteq> RequestsChClosed) evs))"









section \<open>The starting offset of a stream\<close>

lemma chooseStartingOffset_ok:
  assumes "GetOffset (client f) t p OffsetNewest = Inr newest"
    and "GetOffset (client f) t p OffsetOldest = Inr oldest"
  shows "chooseStartingOffset f t p off =
           (if off = OffsetNewest \<or> newest <s off then (newest, None)
            else if off = OffsetOldest \<or> off <s oldest then (oldest, None)
            else (off, None))"
  using assms by (simp add: chooseStartingOffset_def)

lemma sentinel_sint: "sint OffsetNewest = - 1" "sint OffsetOldest = - 2"
  by (simp_all add: OffsetNewest_def OffsetOldest_def)

lemma spawn_ok_offset:
  assumes "SpawnMessageStream f t p off = ((Some ms, actualOffset, None), f')"
  shows "chooseStartingOffset f t p off = (actualOffset, None)" and "offset ms = actualOffset"
  using assms
  by (auto simp: SpawnMessageStream_def Let_def spawnMsgStream_def split: prod.splits option.splits)

lemma ex_spawn:
  "SpawnMessageStream ex_factory ''t'' 0 off =
     ((Some (spawnMsgStream ex_factory \<lparr>topic = ''t'', partition = 0\<rparr>
               (fst (chooseStartingOffset ex_factory ''t'' 0 off))),
       fst (chooseStartingOffset ex_factory ''t'' 0 off), None),
      snd (SpawnMessageStream ex_factory ''t'' 0 off))"
  by (simp add: SpawnMessageStream_def chooseStartingOffset_def ex_factory_def SpawnFactory_def
      ex_client_def Let_def)

text \<open>
  Claim C1, as the code has it. A spawn that succeeds returns the offset resolved from the
  two boundaries the cluster reports, and the new stream starts at it. The newest rule
  comes first: the newest constant, or any requested offset strictly above the newest
  boundary, gives the newest offset; otherwise the oldest constant, or an offset strictly
  below the oldest boundary, gives the oldest offset; otherwise the requested offset
  comes back unchanged. So the rule for the newest offset and the rule for a literal
  between the boundaries hold as the claim states them, and the rule for the oldest
  offset holds for boundaries with \<open>0 \<le> oldest \<le> newest\<close>.
\<close>

theorem spawn_resolves_offset:
  assumes newest: "GetOffset (client f) t p OffsetNewest = Inr newest"
    and oldest: "GetOffset (client f) t p OffsetOldest = Inr oldest"
    and spawn: "SpawnMessageStream f t p off = ((Some ms, actualOffset, None), f')"
  shows "actualOffset =
           (if off = OffsetNewest \<or> newest <s off then newest
            else if off = OffsetOldest \<or> off <s oldest then oldest
            else off)
       \<and> (0 \<le>s oldest \<and> oldest \<le>s newest \<longrightarrow>
            (off = OffsetOldest \<or> (literal off \<and> off <s oldest) \<longrightarrow> actualOffset = oldest))
       \<and> (off = OffsetNewest \<or> (literal off \<and> newest <s off) \<longrightarrow> actualOffset = newest)
       \<and> (literal off \<and> oldest \<le>s off \<and> off \<le>s newest \<longrightarrow> actualOffset = off)
       \<and> offset ms = actualOffset"
proof -
  note c = spawn_ok_offset [OF spawn]
  have eq: "actualOffset =
           (if off = OffsetNewest \<or> newest <s off then newest
            else if off = OffsetOldest \<or> off <s oldest then oldest
            else off)"
    using c(1) unfolding chooseStartingOffset_ok [OF newest oldest]
    by (auto split: if_splits)
  have old: "0 \<le>s oldest \<and> oldest \<le>s newest \<longrightarrow>
            (off = OffsetOldest \<or> (literal off \<and> off <s oldest) \<longrightarrow> actualOffset = oldest)"
    using eq sentinel_sint unfolding literal_def
    by (auto simp: word_sle_eq word_sless_alt)
  have new: "off = OffsetNewest \<or> (literal off \<and> newest <s off) \<longrightarrow> actualOffset = newest"
    using eq by simp
  have mid: "literal off \<and> oldest \<le>s off \<and> off \<le>s newest \<longrightarrow> actualOffset = off"
    using eq unfolding literal_def
    by (auto simp: word_sle_eq word_sless_alt)
  from eq old new mid c(2) show ?thesis
    by blast
qed

lemma ex_race_spawn:
  "SpawnMessageStream ex_race_factory ''t'' 0 70 =
     ((Some (spawnMsgStream ex_race_factory \<lparr>topic = ''t'', partition = 0\<rparr> 50), 50, None),
      snd (SpawnMessageStream ex_race_factory ''t'' 0 70))"
  by (simp add: SpawnMessageStream_def chooseStartingOffset_def ex_race_factory_def SpawnFactory_def
      ex_race_client_def Let_def OffsetNewest_def OffsetOldest_def word_sless_alt)

theorem spawn_resolves_offset_witness:
  "fst (snd (fst (SpawnMessageStream ex_factory ''t'' 0 50))) = 100
   \<and> fst (snd (fst (SpawnMessageStream ex_factory ''t'' 0 9999))) = 200
   \<and> fst (snd (fst (SpawnMessageStream ex_factory ''t'' 0 150))) = 150
   \<and> fst (snd (fst (SpawnMessageStream ex_race_factory ''t'' 0 70))) = 50"
proof -
  have n: "GetOffset (client ex_factory) ''t'' 0 OffsetNewest = Inr 200"
    and o: "GetOffset (client ex_factory) ''t'' 0 OffsetOldest = Inr 100"
    by (simp_all add: ex_factory_def SpawnFactory_def ex_client_def OffsetNewest_def OffsetOldest_def)
  have rn: "GetOffset (client ex_race_factory) ''t'' 0 OffsetNewest = Inr 50"
    and ro: "GetOffset (client ex_race_factory) ''t'' 0 OffsetOldest = Inr 100"
    by (simp_all add: ex_race_factory_def SpawnFactory_def ex_race_client_def OffsetNewest_def
        OffsetOldest_def)
  have wf: "(0::int64) \<le>s 100 \<and> (100::int64) \<le>s 200"
    by (simp add: word_sle_eq)
  have l: "literal 50" "literal 9999" "literal 150"
    by (simp_all add: literal_def OffsetNewest_def OffsetOldest_def)
  have cmp: "(50::int64) <s 100" "(200::int64) <s 9999" "(100::int64) \<le>s 150" "(150::int64) \<le>s 200"
    "(50::int64) <s 70" "(70::int64) \<noteq> OffsetNewest"
    by (simp_all add: word_sle_eq word_sless_alt OffsetNewest_def)
  have p: "fst (snd (fst (SpawnMessageStream ex_factory ''t'' 0 off))) =
           fst (chooseStartingOffset ex_factory ''t'' 0 off)" for off
    using arg_cong [OF ex_spawn [of off], of "\<lambda>x. fst (snd (fst x))"] by simp
  have r: "fst (snd (fst (SpawnMessageStream ex_race_factory ''t'' 0 70))) = 50"
    using arg_cong [OF ex_race_spawn, of "\<lambda>x. fst (snd (fst x))"] by simp
  show ?thesis
    using spawn_resolves_offset [OF n o ex_spawn [of 50], THEN conjunct2]
      spawn_resolves_offset [OF n o ex_spawn [of 9999], THEN conjunct2]
      spawn_resolves_offset [OF n o ex_spawn [of 150], THEN conjunct2]
      spawn_resolves_offset [OF rn ro ex_race_spawn, THEN conjunct1] wf l cmp r
    by (simp add: p)
qed

text \<open>
  The claim as written fails where the two boundaries cross, which the two separate
  lookups allow: with the newest offset read as 50 and the oldest as 100, the literal 70
  is strictly below the oldest boundary, and the spawn succeeds with 50, not with the
  oldest offset 100.
\<close>

theorem spawn_oldest_rule_counterexample:
  "GetOffset (client ex_race_factory) ''t'' 0 OffsetNewest = Inr 50
   \<and> GetOffset (client ex_race_factory) ''t'' 0 OffsetOldest = Inr 100
   \<and> literal 70 \<and> (70 :: int64) <s 100
   \<and> fst (SpawnMessageStream ex_race_factory ''t'' 0 70) =
       (Some (spawnMsgStream ex_race_factory \<lparr>topic = ''t'', partition = 0\<rparr> 50), 50, None)
   \<and> (50 :: int64) \<noteq> 100"
proof -
  have "fst (SpawnMessageStream ex_race_factory ''t'' 0 70) =
       (Some (spawnMsgStream ex_race_factory \<lparr>topic = ''t'', partition = 0\<rparr> 50), 50, None)"
    using arg_cong [OF ex_race_spawn, of fst] by simp
  then show ?thesis
    by (simp add: ex_race_factory_def SpawnFactory_def ex_race_client_def literal_def
        OffsetNewest_def OffsetOldest_def word_sless_alt)
qed

text \<open>
  Claim C10, as the code has it. Whenever \<^verbatim>\<open>SpawnMessageStream\<close> returns an error (the
  boundary lookup has failed, or the partition is already consumed), the offset next to
  the error is the newest constant and no stream is returned: the offset is not 0, and
  it is the requested offset exactly when the newest constant itself was requested.
\<close>

theorem spawn_error_offset:
  assumes "SpawnMessageStream f t p off = ((r, actualOffset, Some err), f')"
  shows "actualOffset = OffsetNewest \<and> actualOffset \<noteq> 0
         \<and> (off \<noteq> OffsetNewest \<longrightarrow> actualOffset \<noteq> off)
         \<and> (off = OffsetNewest \<longrightarrow> actualOffset = off) \<and> r = None"
  using assms
  by (auto simp: SpawnMessageStream_def Let_def OffsetNewest_def split: prod.splits option.splits)

lemma ex_factory1_children:
  "children ex_factory1 \<lparr>topic = ''t'', partition = 0\<rparr> \<noteq> None"
  by (simp add: ex_factory1_def SpawnMessageStream_def chooseStartingOffset_def ex_factory_def
      SpawnFactory_def ex_client_def Let_def)

lemma ex_factory1_client: "client ex_factory1 = ex_client"
  by (simp add: ex_factory1_def SpawnMessageStream_def chooseStartingOffset_def ex_factory_def
      SpawnFactory_def ex_client_def Let_def)

lemma ex_second_spawn:
  "SpawnMessageStream ex_factory1 ''t'' 0 50 = ((None, OffsetNewest, Some AlreadyConsuming), ex_factory1)"
  using ex_factory1_children
  by (auto simp: SpawnMessageStream_def chooseStartingOffset_def ex_factory1_client ex_client_def
      Let_def split: option.splits)

theorem spawn_error_offset_witness:
  "SpawnMessageStream ex_factory1 ''t'' 0 50 = ((None, OffsetNewest, Some AlreadyConsuming), ex_factory1)
   \<and> OffsetNewest \<noteq> 0 \<and> OffsetNewest \<noteq> (50 :: int64)"
  using spawn_error_offset [OF ex_second_spawn] ex_second_spawn
  by (simp add: OffsetNewest_def)

text \<open>
  The claim as written fails for a spawn that asks for the newest constant: when it
  fails (here on the partition the factory already consumes), the offset next to the
  error is the requested offset.
\<close>

theorem spawn_error_echoes_newest_counterexample:
  "SpawnMessageStream ex_factory1 ''t'' 0 OffsetNewest =
     ((None, OffsetNewest, Some AlreadyConsuming), ex_factory1)"
  using ex_factory1_children
  by (auto simp: SpawnMessageStream_def chooseStartingOffset_def ex_factory1_client ex_client_def
      Let_def split: option.splits)

section \<open>One stream per partition\<close>

lemma live_append_spawned:
  "WorkerStopped w \<notin> set (mapper_events f) \<Longrightarrow>
   live (f\<lparr>mapper_events := mapper_events f @ [WorkerSpawned w], children := ch, next_ref := n\<rparr>)
     = live f @ [w]"
  by (simp add: live_def)

lemma live_append_stopped:
  "live (f\<lparr>children := ch, mapper_events := mapper_events f @ [WorkerStopped w]\<rparr>)
     = filter (\<lambda>v. v \<noteq> w) (live f)"
  by (auto simp: live_def intro!: filter_cong)

lemma live_client [simp]: "live (f\<lparr>client := c\<rparr>) = live f"
  by (simp add: live_def)

lemma factory_inv_client [simp]: "factory_inv (f\<lparr>client := c\<rparr>) = factory_inv f"
  by (simp add: factory_inv_def)

lemma spawn_error_unchanged:
  "snd (snd (fst (SpawnMessageStream f t p off))) \<noteq> None \<Longrightarrow> snd (SpawnMessageStream f t p off) = f"
  by (auto simp: SpawnMessageStream_def Let_def split: prod.splits option.splits)

lemma factory_inv_spawn:
  assumes "factory_inv f"
  shows "factory_inv (snd (SpawnMessageStream f t p off))"
proof (cases "snd (snd (fst (SpawnMessageStream f t p off)))")
  case (Some e)
  then show ?thesis using assms spawn_error_unchanged [of f t p off] by simp
next
  case None
  define i where "i = \<lparr>topic = t, partition = p\<rparr>"
  from None obtain a where c: "chooseStartingOffset f t p off = (a, None)" and ch: "children f i = None"
    by (auto simp: SpawnMessageStream_def Let_def i_def split: prod.splits option.splits)
  define ms where "ms = spawnMsgStream f i a"
  define w where "w = worker_of ms"
  have w: "w = (next_ref f, i)" by (simp add: w_def ms_def worker_of_def spawnMsgStream_def)
  have f': "snd (SpawnMessageStream f t p off) =
        f\<lparr>mapper_events := mapper_events f @ [WorkerSpawned w], children := (children f)(i \<mapsto> ms),
          next_ref := Suc (next_ref f)\<rparr>"
    using c ch by (simp add: SpawnMessageStream_def Let_def i_def ms_def w_def)
  have ns: "WorkerStopped w \<notin> set (mapper_events f)"
    using assms w by (fastforce simp: factory_inv_def)
  have l: "live (snd (SpawnMessageStream f t p off)) = live f @ [w]"
    unfolding f' by (rule live_append_spawned [OF ns])
  have noti: "i \<notin> snd ` set (live f)"
    using assms ch by (fastforce simp: factory_inv_def)
  have 1: "distinct (map snd (live f @ [w]))"
    using assms noti w by (simp add: factory_inv_def)
  have 2: "\<forall>v \<in> set (live f @ [w]). \<exists>m. ((children f)(i \<mapsto> ms)) (snd v) = Some m \<and> worker_of m = v"
    using assms noti w by (auto simp: factory_inv_def w_def)
  have 3: "\<forall>v. WorkerSpawned v \<in> set (mapper_events f @ [WorkerSpawned w])
              \<or> WorkerStopped v \<in> set (mapper_events f @ [WorkerSpawned w]) \<longrightarrow> fst v < Suc (next_ref f)"
    using assms w by (auto simp: factory_inv_def less_Suc_eq)
  show ?thesis
    unfolding factory_inv_def l using 1 2 3 by (simp add: f')
qed

lemma factory_inv_stop:
  assumes "factory_inv f" and "worker_of ms \<in> set (live f)"
  shows "factory_inv (msgStream_Stop f ms)"
proof -
  define w where "w = worker_of ms"
  have i: "id ms = snd w" by (simp add: w_def worker_of_def)
  have l: "live (msgStream_Stop f ms) = filter (\<lambda>v. v \<noteq> w) (live f)"
    unfolding msgStream_Stop_def w_def by (rule live_append_stopped)
  have d: "distinct (map snd (live f))" using assms by (simp add: factory_inv_def)
  have 1: "distinct (map snd (filter (\<lambda>v. v \<noteq> w) (live f)))"
    using d by (rule distinct_map_filter)
  have other: "snd v \<noteq> snd w" if "v \<in> set (live f)" "v \<noteq> w" for v
    using d that assms(2) unfolding w_def [symmetric]
    by (metis distinct_map inj_onD)
  have 2: "\<forall>v \<in> set (filter (\<lambda>v. v \<noteq> w) (live f)).
             \<exists>m. ((children f)(id ms := None)) (snd v) = Some m \<and> worker_of m = v"
    using assms other by (auto simp: factory_inv_def i)
  have 3: "\<forall>v. WorkerSpawned v \<in> set (mapper_events f @ [WorkerStopped w])
              \<or> WorkerStopped v \<in> set (mapper_events f @ [WorkerStopped w]) \<longrightarrow> fst v < next_ref f"
  proof -
    have "WorkerSpawned w \<in> set (mapper_events f)"
      using assms(2) unfolding w_def [symmetric] by (auto simp: live_def split: mapper_event.splits)
    then show ?thesis using assms(1) by (auto simp: factory_inv_def)
  qed
  show ?thesis
    unfolding factory_inv_def l using 1 2 3 by (simp add: msgStream_Stop_def w_def)
qed

lemma factory_inv_calls:
  "factory_calls cs f = Some f' \<Longrightarrow> factory_inv f \<Longrightarrow> factory_inv f'"
proof (induction cs f rule: factory_calls.induct)
  case (1 f)
  then show ?case by simp
next
  case (2 c t p off cs f)
  then show ?case using factory_inv_spawn [of "f\<lparr>client := c\<rparr>" t p off] by simp
next
  case (3 ms cs f)
  then show ?case using factory_inv_stop [of f ms] by (simp split: if_splits)
qed

lemma factory_inv_init: "factory_inv (SpawnFactory c conf)"
  by (simp add: factory_inv_def SpawnFactory_def live_def)

lemma spawn_duplicate:
  assumes "children f \<lparr>topic = t, partition = p\<rparr> \<noteq> None" "snd (chooseStartingOffset f t p off) = None"
  shows "SpawnMessageStream f t p off = ((None, OffsetNewest, Some AlreadyConsuming), f)"
  using assms by (auto simp: SpawnMessageStream_def Let_def split: prod.splits option.splits)

text \<open>
  Claim C8, as the code has it. Whatever calls a factory has received, no two of its live
  streams (spawned and not yet stopped) have the same topic and partition, and every live
  stream is registered in the children map. A spawn for a registered partition whose
  boundary lookup succeeds returns the already-consuming error; a spawn whose boundary
  lookup fails returns the lookup's error, whether the partition is registered or not;
  and a spawn that returns any error returns no stream and leaves the factory as it was:
  the children map is unchanged and nothing is sent to the mapper.
\<close>

theorem one_stream_per_partition:
  "(factory_calls cs (SpawnFactory c conf) = Some f \<longrightarrow>
      distinct (map snd (live f)) \<and> (\<forall>w \<in> set (live f). children f (snd w) \<noteq> None))
   \<and> (children g \<lparr>topic = t, partition = p\<rparr> \<noteq> None \<and> snd (chooseStartingOffset g t p off) = None \<longrightarrow>
        SpawnMessageStream g t p off = ((None, OffsetNewest, Some AlreadyConsuming), g))
   \<and> (snd (chooseStartingOffset g t p off) = Some e \<longrightarrow>
        SpawnMessageStream g t p off = ((None, OffsetNewest, Some e), g))
   \<and> (snd (snd (fst (SpawnMessageStream g t p off))) \<noteq> None \<longrightarrow>
        fst (fst (SpawnMessageStream g t p off)) = None \<and> snd (SpawnMessageStream g t p off) = g)"
proof (intro conjI impI)
  assume "factory_calls cs (SpawnFactory c conf) = Some f"
  then have "factory_inv f"
    using factory_inv_calls factory_inv_init by blast
  then show "distinct (map snd (live f))" and "\<forall>w \<in> set (live f). children f (snd w) \<noteq> None"
    by (auto simp: factory_inv_def)
next
  assume "children g \<lparr>topic = t, partition = p\<rparr> \<noteq> None \<and> snd (chooseStartingOffset g t p off) = None"
  then show "SpawnMessageStream g t p off = ((None, OffsetNewest, Some AlreadyConsuming), g)"
    using spawn_duplicate by blast
next
  assume "snd (chooseStartingOffset g t p off) = Some e"
  then show "SpawnMessageStream g t p off = ((None, OffsetNewest, Some e), g)"
    by (auto simp: SpawnMessageStream_def split: prod.splits)
next
  assume e: "snd (snd (fst (SpawnMessageStream g t p off))) \<noteq> None"
  then show "snd (SpawnMessageStream g t p off) = g"
    by (rule spawn_error_unchanged)
  from e show "fst (fst (SpawnMessageStream g t p off)) = None"
    by (auto simp: SpawnMessageStream_def Let_def split: prod.splits option.splits)
qed

lemma ex_factory_client: "ex_factory\<lparr>client := ex_client\<rparr> = ex_factory"
  by (simp add: ex_factory_def SpawnFactory_def)

lemma ex_factory1_client_upd: "ex_factory1\<lparr>client := ex_client\<rparr> = ex_factory1"
  using ex_factory1_client by (cases ex_factory1) auto

lemma ex_calls:
  "factory_calls [CallSpawn ex_client ''t'' 0 50, CallSpawn ex_client ''t'' 0 60]
     (SpawnFactory ex_client ex_cfg) = Some ex_factory1"
proof -
  have "SpawnMessageStream ex_factory1 ''t'' 0 60 = ((None, OffsetNewest, Some AlreadyConsuming), ex_factory1)"
    using ex_factory1_children
    by (auto simp: SpawnMessageStream_def chooseStartingOffset_def ex_factory1_client ex_client_def
        Let_def split: option.splits)
  then show ?thesis
    by (simp add: ex_factory_def [symmetric] ex_factory_client ex_factory1_def [symmetric]
        ex_factory1_client_upd)
qed

theorem one_stream_per_partition_witness:
  "factory_calls [CallSpawn ex_client ''t'' 0 50, CallSpawn ex_client ''t'' 0 60]
     (SpawnFactory ex_client ex_cfg) = Some ex_factory1
   \<and> distinct (map snd (live ex_factory1))
   \<and> children ex_factory1 \<lparr>topic = ''t'', partition = 0\<rparr> \<noteq> None
   \<and> snd (chooseStartingOffset ex_factory1 ''t'' 0 50) = None
   \<and> SpawnMessageStream ex_factory1 ''t'' 0 50 = ((None, OffsetNewest, Some AlreadyConsuming), ex_factory1)
   \<and> snd (SpawnMessageStream ex_factory1 ''t'' 0 50) = ex_factory1
   \<and> children (ex_factory1\<lparr>client := ex_down_client\<rparr>) \<lparr>topic = ''t'', partition = 0\<rparr> \<noteq> None
   \<and> snd (chooseStartingOffset (ex_factory1\<lparr>client := ex_down_client\<rparr>) ''t'' 0 50)
       = Some (ErrOther ''broker down'')
   \<and> SpawnMessageStream (ex_factory1\<lparr>client := ex_down_client\<rparr>) ''t'' 0 50
       = ((None, OffsetNewest, Some (ErrOther ''broker down'')), ex_factory1\<lparr>client := ex_down_client\<rparr>)"
proof -
  have c: "snd (chooseStartingOffset ex_factory1 ''t'' 0 50) = None"
    by (simp add: chooseStartingOffset_def ex_factory1_client ex_client_def)
  have d: "snd (chooseStartingOffset (ex_factory1\<lparr>client := ex_down_client\<rparr>) ''t'' 0 50)
       = Some (ErrOther ''broker down'')"
    by (simp add: chooseStartingOffset_def ex_down_client_def)
  note t1 = one_stream_per_partition [where cs = "[CallSpawn ex_client ''t'' 0 50, CallSpawn ex_client ''t'' 0 60]"
        and c = ex_client and conf = ex_cfg and f = ex_factory1, THEN conjunct1]
  note t2 = one_stream_per_partition [where g = ex_factory1 and t = "''t''" and p = 0 and off = 50,
        THEN conjunct2, THEN conjunct1]
  note t3 = one_stream_per_partition [where g = "ex_factory1\<lparr>client := ex_down_client\<rparr>" and t = "''t''"
        and p = 0 and off = 50 and e = "ErrOther ''broker down''", THEN conjunct2, THEN conjunct2, THEN conjunct1]
  note t4 = one_stream_per_partition [where g = ex_factory1 and t = "''t''" and p = 0 and off = 50,
        THEN conjunct2, THEN conjunct2, THEN conjunct2]
  show ?thesis
    using t1 t2 t3 t4 ex_calls ex_factory1_children c d
    by simp
qed

text \<open>
  The claim as written fails where the boundary lookup fails: the lookup comes before
  the test of the children map, so a second spawn for a registered partition returns
  the lookup's error, not the already-consuming error.
\<close>

theorem spawn_duplicate_lookup_error_counterexample:
  "children (ex_factory1\<lparr>client := ex_down_client\<rparr>) \<lparr>topic = ''t'', partition = 0\<rparr> \<noteq> None
   \<and> SpawnMessageStream (ex_factory1\<lparr>client := ex_down_client\<rparr>) ''t'' 0 50
      = ((None, OffsetNewest, Some (ErrOther ''broker down'')), ex_factory1\<lparr>client := ex_down_client\<rparr>)
   \<and> ErrOther ''broker down'' \<noteq> AlreadyConsuming"
  using ex_factory1_children
  by (simp add: SpawnMessageStream_def chooseStartingOffset_def ex_down_client_def AlreadyConsuming_def)

section \<open>Parsing a fetch result\<close>

lemma consumerMessage_lag [simp]: "consumerMessage (ms\<lparr>lag := l\<rparr>) = consumerMessage ms"
  by (simp add: consumerMessage_def fun_eq_iff)

lemma kept_lag [simp]: "kept (ms\<lparr>lag := l\<rparr>) = kept ms"
  by (simp add: kept_def fun_eq_iff)

lemma kept_append [simp]: "kept ms (xs @ ys) = kept ms xs @ kept ms ys"
  by (simp add: kept_def)

lemma parse_messages_eq:
  "parse_messages block msgs (ms, fetched) =
     (ms\<lparr>lag := lag_after ms block msgs\<rparr>, fetched @ map (consumerMessage ms block) (kept ms msgs))"
proof (induction msgs arbitrary: ms fetched)
  case Nil
  then show ?case by (simp add: lag_after_def kept_def)
next
  case (Cons msg rest)
  show ?case
  proof (cases "mb_Offset msg <s offset ms")
    case True
    then show ?thesis using Cons [of ms fetched] by (simp add: lag_after_def kept_def)
  next
    case False
    then show ?thesis
      using Cons [of "ms\<lparr>lag := HighWaterMarkOffset block - mb_Offset msg\<rparr>"
          "fetched @ [consumerMessage ms block msg]"]
      by (simp add: lag_after_def kept_def)
  qed
qed

lemma parse_blocks_eq:
  "parse_blocks block bs (ms, fetched) =
     (ms\<lparr>lag := lag_after ms block (concat bs)\<rparr>,
      fetched @ map (consumerMessage ms block) (kept ms (concat bs)))"
proof (induction bs arbitrary: ms fetched)
  case Nil
  then show ?case by (simp add: lag_after_def kept_def)
next
  case (Cons b bs)
  show ?case
    by (simp add: parse_messages_eq Cons lag_after_def)
qed

lemma sint_inc64: "sint (x :: int64) < 2 ^ 63 - 1 \<Longrightarrow> sint (x + 1) = sint x + 1"
  using sint_ge [of x] by (simp add: sint_word_ariths signed_take_bit_int_eq_self_iff)

lemma kept_fetchSize [simp]: "kept (ms\<lparr>fetchSize := l\<rparr>) = kept ms"
  by (simp add: kept_def fun_eq_iff)

lemma consumerMessage_fetchSize [simp]: "consumerMessage (ms\<lparr>fetchSize := l\<rparr>) = consumerMessage ms"
  by (simp add: consumerMessage_def fun_eq_iff)

lemma block_of_Some:
  "block_of i r = Some block \<longleftrightarrow>
     Err r = None \<and> (\<exists>response. Response r = Some response \<and> GetBlock response (topic i) (partition i) = Some block)"
  by (auto simp: block_of_def split: option.splits)


lemma parseFetchResult_batch:
  assumes "block_of (id ms) r = Some block" "blk_Err block = ErrNoError" "MsgSet_Messages block \<noteq> []"
  shows "parseFetchResult ms r =
    (ms\<lparr>fetchSize := Fetch_Default (cfg ms), lag := lag_after ms block (concat (MsgSet_Messages block))\<rparr>,
     map (consumerMessage ms block) (kept ms (concat (MsgSet_Messages block))),
     if kept ms (concat (MsgSet_Messages block)) = [] then Some ErrIncompleteResponse else None)"
  using assms
  by (auto simp: parseFetchResult_def block_of_Some Let_def parse_blocks_eq lag_after_def)

lemma ex_block: "block_of \<lparr>topic = ''t'', partition = 0\<rparr> (ex_result sets partial) =
   Some \<lparr>blk_Err = ErrNoError, HighWaterMarkOffset = 105, MsgSet_Messages = sets, PartialTrailingMessage = partial\<rparr>"
  by (simp add: block_of_def ex_result_def GetBlock_def)

lemma ex_ms_simps: "id ex_ms = \<lparr>topic = ''t'', partition = 0\<rparr>" "offset ex_ms = 100"
  "fetchSize ex_ms = 32768" "cfg ex_ms = ex_cfg" "lag ex_ms = 0" "messagesCh ex_ms = []" "errorsCh ex_ms = []"
  by (simp_all add: ex_ms_def spawnMsgStream_def ex_factory_def SpawnFactory_def ex_cfg_def)


lemma trigger_simps [simp]:
  "offset (stream (triggerOrScheduleReassign now s)) = offset (stream s)"
  "messagesCh (stream (triggerOrScheduleReassign now s)) = messagesCh (stream s)"
  "id (stream (triggerOrScheduleReassign now s)) = id (stream s)"
  "fetchSize (stream (triggerOrScheduleReassign now s)) = fetchSize (stream s)"
  "lag (stream (triggerOrScheduleReassign now s)) = lag (stream s)"
  "cfg (stream (triggerOrScheduleReassign now s)) = cfg (stream s)"
  "nilOrBrokerRequestsCh (stream (triggerOrScheduleReassign now s)) = nilOrBrokerRequestsCh (stream s)"
  "nilOrFetchResultsCh (triggerOrScheduleReassign now s) = nilOrFetchResultsCh s"
  "nilOrMessagesCh (triggerOrScheduleReassign now s) = nilOrMessagesCh s"
  "fetchedMessages (triggerOrScheduleReassign now s) = fetchedMessages s"
  "currMessage (triggerOrScheduleReassign now s) = currMessage s"
  "currMessageIdx (triggerOrScheduleReassign now s) = currMessageIdx s"
  "finished (triggerOrScheduleReassign now s) = finished s"
  "requests (triggerOrScheduleReassign now s) = requests s"
  by (simp_all add: triggerOrScheduleReassign_def Let_def)

lemma pending_trigger [simp]: "pending (triggerOrScheduleReassign now s) = pending s"
  by (simp add: pending_def)

lemma stream_inv_trigger [simp]: "stream_inv n (triggerOrScheduleReassign now s) = stream_inv n s"
  by (simp add: stream_inv_def)

lemma reportError_simps [simp]:
  "offset (reportError ms e) = offset ms" "messagesCh (reportError ms e) = messagesCh ms"
  "id (reportError ms e) = id ms" "fetchSize (reportError ms e) = fetchSize ms"
  "lag (reportError ms e) = lag ms" "cfg (reportError ms e) = cfg ms"
  "nilOrBrokerRequestsCh (reportError ms e) = nilOrBrokerRequestsCh ms"
  "assignedBrokerRequestCh (reportError ms e) = assignedBrokerRequestCh ms"
  by (simp_all add: reportError_def)

lemma parseFetchResult_cases:
  "parseFetchResult ms r = (ms', msgs, err) \<Longrightarrow>
     id ms' = id ms \<and> messagesCh ms' = messagesCh ms \<and> cfg ms' = cfg ms
     \<and> nilOrBrokerRequestsCh ms' = nilOrBrokerRequestsCh ms
     \<and> assignedBrokerRequestCh ms' = assignedBrokerRequestCh ms
     \<and> ((offset ms' = offset ms \<and> (msgs = [] \<or> err = None \<and>
            (\<exists>block. block_of (id ms) r = Some block
               \<and> msgs = map (consumerMessage ms block) (kept ms (concat (MsgSet_Messages block))))))
         \<or> (offset ms' = offset ms + 1 \<and> msgs = [] \<and> err = None))"
  by (auto simp: parseFetchResult_def block_of_def Let_def parse_blocks_eq
      split: option.splits if_splits)

section \<open>The oversized record and the fetch size\<close>



lemma ex_waiting_eq:
  "ex_waiting = (run_init ex_ms 9)\<lparr>requests := [(7, request_of (run_init ex_ms 9))],
      stream := ex_ms\<lparr>assignedBrokerRequestCh := Some 7, nilOrReassignRetryTimerCh := False,
                      nilOrBrokerRequestsCh := None\<rparr>,
      nilOrFetchResultsCh := True\<rparr>"
  by (simp add: ex_waiting_def run_init_def Let_def request_of_def)




text \<open>
  Where doubling cannot overflow (a positive maximum of at most \<open>2^30\<close>, and a default
  between 0 and the maximum), the fetch size stays between the default and the maximum:
  a fetch result leaves it as it is, resets it to the default, or doubles it up to the
  maximum.
\<close>

lemma sint_double32: "0 \<le> sint x \<Longrightarrow> sint x < 2 ^ 30 \<Longrightarrow> sint (x * 2 :: int32) = 2 * sint x"
proof -
  assume a: "0 \<le> sint x" "sint x < 2 ^ 30"
  have "signed_take_bit 31 (sint x * 2) = sint x * 2"
    using a by (simp add: signed_take_bit_int_eq_self_iff)
  then show ?thesis by (simp add: sint_word_ariths)
qed

lemma fetchSize_in_range:
  assumes cfg: "0 \<le> sint (Fetch_Default (cfg ms))"
      "sint (Fetch_Default (cfg ms)) \<le> sint (Fetch_Max (cfg ms))"
      "sint (Fetch_Max (cfg ms)) \<le> 2 ^ 30" "0 < sint (Fetch_Max (cfg ms))"
    and range: "sint (Fetch_Default (cfg ms)) \<le> sint (fetchSize ms)"
      "sint (fetchSize ms) \<le> sint (Fetch_Max (cfg ms))"
    and parsed: "parseFetchResult ms r = (ms', msgs, err)"
  shows "sint (Fetch_Default (cfg ms')) \<le> sint (fetchSize ms')
       \<and> sint (fetchSize ms') \<le> sint (Fetch_Max (cfg ms')) \<and> cfg ms' = cfg ms
       \<and> (fetchSize ms' = fetchSize ms \<or> fetchSize ms' = Fetch_Default (cfg ms)
           \<or> sint (fetchSize ms') = min (2 * sint (fetchSize ms)) (sint (Fetch_Max (cfg ms))))"
proof -
  have d: "sint (fetchSize ms * 2) = 2 * sint (fetchSize ms)" if "fetchSize ms \<noteq> Fetch_Max (cfg ms)"
  proof -
    have "sint (fetchSize ms) \<noteq> sint (Fetch_Max (cfg ms))"
      using that signed_word_eqI [of "fetchSize ms" "Fetch_Max (cfg ms)"] by auto
    then have "sint (fetchSize ms) < 2 ^ 30" using range(2) cfg(3) by linarith
    moreover have "0 \<le> sint (fetchSize ms)" using cfg(1) range(1) by linarith
    ultimately show ?thesis by (rule sint_double32 [rotated])
  qed
  show ?thesis
    using parsed cfg range d
    by (auto simp: parseFetchResult_def Let_def parse_blocks_eq reportError_def word_sless_alt
        min_def split: option.splits if_splits)
qed

text \<open>
  Without a maximum, each result with only a partial trailing message doubles the fetch
  size in \<^verbatim>\<open>int32\<close> arithmetic.
\<close>

lemma ex_partial_doubles:
  "Fetch_Max (cfg m) = 0 \<Longrightarrow> id m = \<lparr>topic = ''t'', partition = 0\<rparr> \<Longrightarrow>
   fst (parseFetchResult m ex_partial) = m\<lparr>fetchSize := fetchSize m * 2\<rparr>"
  by (simp add: parseFetchResult_def ex_partial_def ex_result_def GetBlock_def Let_def)

lemma ex_partial_iterated:
  "Fetch_Max (cfg m) = 0 \<Longrightarrow> id m = \<lparr>topic = ''t'', partition = 0\<rparr> \<Longrightarrow>
   ((\<lambda>m. fst (parseFetchResult m ex_partial)) ^^ n) m = m\<lparr>fetchSize := fetchSize m * 2 ^ n\<rparr>"
proof (induction n)
  case 0
  then show ?case by simp
next
  case (Suc n)
  then show ?case by (simp add: ex_partial_doubles mult.assoc)
qed

text \<open>
  Claim C4 fails on the code. With the default fetch size 32768 and no maximum, fifteen
  results that hold only a partial trailing message bring the fetch size to \<open>2^30\<close>; the
  sixteenth doubles it past the largest \<^verbatim>\<open>int32\<close>: the fetch size is then
  \<open>-2147483648\<close>, below the default, and the seventeenth leaves it at 0, where doubling
  keeps it for ever.
\<close>

theorem fetch_size_overflow:
  "Fetch_Default (cfg ex_ms) = 32768 \<and> Fetch_Max (cfg ex_ms) = 0 \<and> fetchSize ex_ms = 32768
   \<and> fetchSize (((\<lambda>m. fst (parseFetchResult m ex_partial)) ^^ 15) ex_ms) = 1073741824
   \<and> fetchSize (((\<lambda>m. fst (parseFetchResult m ex_partial)) ^^ 16) ex_ms) = - 2147483648
   \<and> fetchSize (((\<lambda>m. fst (parseFetchResult m ex_partial)) ^^ 16) ex_ms) <s Fetch_Default (cfg ex_ms)
   \<and> fetchSize (((\<lambda>m. fst (parseFetchResult m ex_partial)) ^^ 17) ex_ms) = 0"
  by (simp add: ex_partial_iterated ex_ms_simps ex_cfg_def word_sless_alt)

section \<open>The invariant of the loop\<close>

lemma ascending_Nil [simp]: "ascending []"
  by (simp add: ascending_def)

lemma Offset_consumerMessage [simp]: "Offset (consumerMessage ms block msg) = mb_Offset msg"
  by (simp add: consumerMessage_def)

lemma ascending_kept:
  "ascending (map mb_Offset msgs) \<Longrightarrow>
   ascending (map Offset (map (consumerMessage ms block) (kept ms msgs)))"
  by (simp add: ascending_def kept_def sorted_wrt_map sorted_wrt_filter o_def)

lemma kept_ge: "msg \<in> set (kept ms msgs) \<Longrightarrow> sint (offset ms) \<le> sint (mb_Offset msg)"
  by (simp add: kept_def word_sless_alt)

lemma kept_subset: "set (kept ms msgs) \<subseteq> set msgs"
  by (auto simp: kept_def)

lemma stream_inv_weaken: "stream_inv n s \<Longrightarrow> m \<le> n \<Longrightarrow> stream_inv m s"
  by (auto simp: stream_inv_def list_all_iff)

lemma stream_inv_other:
  assumes "stream_inv n s"
    and "nilOrFetchResultsCh s' = nilOrFetchResultsCh s" "nilOrMessagesCh s' = nilOrMessagesCh s"
    and "nilOrBrokerRequestsCh (stream s') = None \<or> (\<not> nilOrFetchResultsCh s \<and> \<not> nilOrMessagesCh s)"
    and "fetchedMessages s' = fetchedMessages s" "currMessage s' = currMessage s"
    and "currMessageIdx s' = currMessageIdx s" "messagesCh (stream s') = messagesCh (stream s)"
    and "offset (stream s') = offset (stream s)"
  shows "stream_inv n s'"
  using assms by (auto simp: stream_inv_def pending_def split: if_splits)

lemma step_assignment:
  assumes "stream_inv n s"
  shows "stream_inv n (run_step (Assignment bw now) s)"
    and "offset (stream (run_step (Assignment bw now) s)) = offset (stream s)"
  using assms
  by (auto simp: Let_def stream_inv_def pending_def split: option.splits)

lemma step_request:
  assumes "stream_inv n s"
  shows "stream_inv n (run_step RequestSent s)"
    and "offset (stream (run_step RequestSent s)) = offset (stream s)"
  using assms
  by (auto simp: Let_def stream_inv_def pending_def split: option.splits)

lemma step_timer:
  assumes "stream_inv n s"
  shows "stream_inv n (run_step RetryTimer s)"
    and "offset (stream (run_step RetryTimer s)) = offset (stream s)"
  using assms
  by (auto simp: Let_def stream_inv_def pending_def split: option.splits)

lemma step_closing:
  assumes "stream_inv n s"
  shows "stream_inv n (run_step Closing s)"
    and "offset (stream (run_step Closing s)) = offset (stream s)"
  using assms
  by (auto simp: Let_def stream_inv_def pending_def split: option.splits)

lemma ascending_Cons: "ascending (x # xs) \<longleftrightarrow> (\<forall>y \<in> set xs. sint x < sint y) \<and> ascending xs"
  by (auto simp: ascending_def)

lemma ascending_snoc:
  "ascending (xs @ [x]) \<longleftrightarrow> ascending xs \<and> (\<forall>y \<in> set xs. sint y < sint x)"
  by (auto simp: ascending_def sorted_wrt_append)

lemma step_message:
  assumes inv: "stream_inv (n + 1) s" and n: "0 \<le> n"
  shows "stream_inv n (run_step MessageSent s)"
    and "sint (offset (stream s)) \<le> sint (offset (stream (run_step MessageSent s)))"
proof -
  have both: "stream_inv n (run_step MessageSent s)
      \<and> sint (offset (stream s)) \<le> sint (offset (stream (run_step MessageSent s)))"
  proof (cases "nilOrMessagesCh s")
    case False
    then show ?thesis using stream_inv_weaken [OF inv, of n] by simp
  next
    case True
    define i where "i = currMessageIdx s"
    define fm where "fm = fetchedMessages s"
    define m where "m = fm ! i"
    have i: "i < length fm" and cur: "currMessage s = Some m" and nofetch: "\<not> nilOrFetchResultsCh s"
      and noreq: "nilOrBrokerRequestsCh (stream s) = None"
      using inv True by (auto simp: stream_inv_def i_def fm_def m_def)
    have pend: "pending s = m # drop (Suc i) fm"
      using True i by (simp add: pending_def i_def [symmetric] fm_def [symmetric] m_def Cons_nth_drop_Suc)
    have sent_asc: "ascending (map Offset (messagesCh (stream s)))"
      and sent_lt: "\<forall>x \<in> set (messagesCh (stream s)). sint (Offset x) < sint (offset (stream s))"
      and m_ge: "sint (offset (stream s)) \<le> sint (Offset m)"
      and m_bound: "sint (Offset m) + (n + 1) < 2 ^ 63"
      and rest_asc: "ascending (map Offset (drop (Suc i) fm))"
      and rest_gt: "\<forall>x \<in> set (drop (Suc i) fm). sint (Offset m) < sint (Offset x)"
      and rest_bound: "\<forall>x \<in> set (drop (Suc i) fm). sint (Offset x) + (n + 1) < 2 ^ 63"
      using inv unfolding stream_inv_def pend by (auto simp: list_all_iff ascending_Cons)
    have inc: "sint (Offset m + 1) = sint (Offset m) + 1"
      using m_bound n by (intro sint_inc64) simp
    show ?thesis
    proof (cases "Suc i < length fm")
      case more: True
      have st: "run_step MessageSent s =
          s\<lparr>stream := (stream s)\<lparr>messagesCh := messagesCh (stream s) @ [m], offset := Offset m + 1\<rparr>,
            currMessageIdx := Suc i, currMessage := Some (fm ! Suc i)\<rparr>"
        using True cur more by (simp add: Let_def i_def fm_def)
      show ?thesis
        unfolding st stream_inv_def pending_def
        using True nofetch noreq more sent_asc sent_lt m_ge rest_asc rest_gt rest_bound inc m_bound
        by (auto simp: list_all_iff ascending_snoc fm_def [symmetric])
    next
      case last: False
      have st: "run_step MessageSent s =
          s\<lparr>stream := (stream s)\<lparr>messagesCh := messagesCh (stream s) @ [m], offset := Offset m + 1,
                nilOrBrokerRequestsCh := assignedBrokerRequestCh (stream s)\<rparr>,
            currMessageIdx := Suc i, nilOrMessagesCh := False\<rparr>"
        using True cur last by (simp add: Let_def i_def fm_def)
      show ?thesis
        unfolding st stream_inv_def pending_def
        using True nofetch sent_asc sent_lt m_ge inc m_bound
        by (auto simp: list_all_iff ascending_snoc)
    qed
  qed
  from both show "stream_inv n (run_step MessageSent s)"
    and "sint (offset (stream s)) \<le> sint (offset (stream (run_step MessageSent s)))"
    by simp_all
qed

lemma step_fetch:
  assumes inv: "stream_inv (n + 1) s" and n: "0 \<le> n"
    and ok: "event_ok (n + 1) (id (stream s)) (FetchResult r now)"
  shows "stream_inv n (run_step (FetchResult r now) s)"
    and "sint (offset (stream s)) \<le> sint (offset (stream (run_step (FetchResult r now) s)))"
proof -
  have both: "stream_inv n (run_step (FetchResult r now) s)
      \<and> sint (offset (stream s)) \<le> sint (offset (stream (run_step (FetchResult r now) s)))"
  proof (cases "nilOrFetchResultsCh s")
    case False
    then show ?thesis using stream_inv_weaken [OF inv, of n] by simp
  next
    case True
    define ms where "ms = stream s"
    obtain ms' msgs err where p: "parseFetchResult ms r = (ms', msgs, err)"
      by (cases "parseFetchResult ms r") auto
    note c = parseFetchResult_cases [OF p]
    have nomsg: "\<not> nilOrMessagesCh s" and noreq: "nilOrBrokerRequestsCh ms = None"
      and sent_asc: "ascending (map Offset (messagesCh ms))"
      and sent_lt: "\<forall>x \<in> set (messagesCh ms). sint (Offset x) < sint (offset ms)"
      and bound: "sint (offset ms) + (n + 1) < 2 ^ 63"
      using inv True by (auto simp: stream_inv_def ms_def list_all_iff)
    have inc: "sint (offset ms + 1) = sint (offset ms) + 1"
      using bound n by (intro sint_inc64) simp
    have off': "sint (offset ms) \<le> sint (offset ms')" "sint (offset ms') + n < 2 ^ 63"
      "\<forall>x \<in> set (messagesCh ms'). sint (Offset x) < sint (offset ms')"
      "ascending (map Offset (messagesCh ms'))" "nilOrBrokerRequestsCh ms' = None"
      using c inc bound sent_lt sent_asc noreq by auto
    show ?thesis
    proof (cases err)
      case (Some e)
      have msgs: "msgs = []" using c Some by auto
      let ?s2 = "s\<lparr>nilOrFetchResultsCh := False, stream := reportError ms' e, fetchedMessages := msgs\<rparr>"
      have i2: "stream_inv n ?s2" and o2: "offset (stream ?s2) = offset ms'"
        using off' nomsg by (simp_all add: stream_inv_def pending_def list_all_iff)
      have st: "run_step (FetchResult r now) s =
          (if e = KErr ErrOffsetOutOfRange then ?s2\<lparr>finished := True\<rparr>
           else triggerOrScheduleReassign now ?s2)"
        using True p Some by (simp add: Let_def ms_def)
      have "stream_inv n (?s2\<lparr>finished := True\<rparr>)"
        using i2 nomsg by (simp add: stream_inv_def pending_def)
      then show ?thesis
        unfolding st using i2 o2 off'(1) by (cases "e = KErr ErrOffsetOutOfRange") (simp_all add: ms_def)
    next
      case None
      show ?thesis
      proof (cases "msgs = []")
        case empty: True
        have st: "run_step (FetchResult r now) s =
            s\<lparr>nilOrFetchResultsCh := False,
              stream := ms'\<lparr>nilOrBrokerRequestsCh := assignedBrokerRequestCh ms'\<rparr>,
              fetchedMessages := msgs\<rparr>"
          using True p None empty by (simp add: Let_def ms_def)
        show ?thesis
          unfolding st using off' nomsg
          by (simp add: stream_inv_def pending_def list_all_iff ms_def)
      next
        case batch: False
        then obtain block where b: "block_of (id ms) r = Some block"
          and m: "msgs = map (consumerMessage ms block) (kept ms (concat (MsgSet_Messages block)))"
          and same: "offset ms' = offset ms"
          using c by auto
        have offs: "offsets_of (id ms) r = map mb_Offset (concat (MsgSet_Messages block))"
          using b by (simp add: offsets_of_def)
        have ok': "ascending (map mb_Offset (concat (MsgSet_Messages block)))"
          "\<forall>x \<in> set (concat (MsgSet_Messages block)). sint (mb_Offset x) + (n + 1) < 2 ^ 63"
          using ok offs by (auto simp: event_ok_def ms_def list_all_iff)
        have asc: "ascending (map Offset msgs)"
          unfolding m by (rule ascending_kept [OF ok'(1)])
        have each: "\<forall>x \<in> set msgs. sint (offset ms) \<le> sint (Offset x) \<and> sint (Offset x) + n < 2 ^ 63"
        proof
          fix x assume "x \<in> set msgs"
          then obtain msg where x: "x = consumerMessage ms block msg"
            and k: "msg \<in> set (kept ms (concat (MsgSet_Messages block)))"
            unfolding m by auto
          have "msg \<in> set (concat (MsgSet_Messages block))"
            using k kept_subset by blast
          then have "sint (mb_Offset msg) + (n + 1) < 2 ^ 63"
            using ok'(2) by blast
          then show "sint (offset ms) \<le> sint (Offset x) \<and> sint (Offset x) + n < 2 ^ 63"
            using kept_ge [OF k] x by simp
        qed
        have st: "run_step (FetchResult r now) s =
            s\<lparr>nilOrFetchResultsCh := False, stream := ms', fetchedMessages := msgs,
              currMessageIdx := 0, currMessage := Some (msgs ! 0), nilOrMessagesCh := True\<rparr>"
          using True p None batch by (simp add: Let_def ms_def)
        show ?thesis
          unfolding st using off' asc each batch same
          by (simp add: stream_inv_def pending_def list_all_iff ms_def)
      qed
    qed
  qed
  from both show "stream_inv n (run_step (FetchResult r now) s)"
    and "sint (offset (stream s)) \<le> sint (offset (stream (run_step (FetchResult r now) s)))"
    by simp_all
qed

section \<open>Offsets over a whole run\<close>

lemma event_ok_weaken: "event_ok n i e \<Longrightarrow> m \<le> n \<Longrightarrow> event_ok m i e"
  by (cases e) (auto simp: event_ok_def list_all_iff)

lemma step_id: "id (stream (run_step e s)) = id (stream s)"
proof (cases e)
  case (FetchResult r now)
  obtain ms' msgs err where p: "parseFetchResult (stream s) r = (ms', msgs, err)"
    by (cases "parseFetchResult (stream s) r") auto
  show ?thesis
    using parseFetchResult_cases [OF p] p FetchResult
    by (auto simp: Let_def split: option.splits)
qed (auto simp: Let_def split: option.splits)

lemma step_inv:
  assumes "stream_inv (n + 1) s" "0 \<le> n" "event_ok (n + 1) (id (stream s)) e"
  shows "stream_inv n (run_step e s)
         \<and> sint (offset (stream s)) \<le> sint (offset (stream (run_step e s)))"
proof (cases e)
  case (Assignment bw now)
  then show ?thesis
    using step_assignment [OF stream_inv_weaken [OF assms(1), of n]] by simp
next
  case RequestSent
  then show ?thesis
    using step_request [OF stream_inv_weaken [OF assms(1), of n]] by simp
next
  case (FetchResult r now)
  then show ?thesis
    using step_fetch [OF assms(1,2)] assms(3) by simp
next
  case MessageSent
  then show ?thesis
    using step_message [OF assms(1,2)] by simp
next
  case RetryTimer
  then show ?thesis
    using step_timer [OF stream_inv_weaken [OF assms(1), of n]] by simp
next
  case Closing
  then show ?thesis
    using step_closing [OF stream_inv_weaken [OF assms(1), of n]] by simp
qed

lemma run_finished: "finished s \<Longrightarrow> run evs s = s"
  by (cases evs) simp_all

lemma run_append: "run (evs1 @ evs2) s = run evs2 (run evs1 s)"
  by (induction evs1 arbitrary: s) (simp_all add: run_finished)

lemma run_inv:
  assumes "stream_inv n s" "int (length evs) \<le> n" "\<forall>e \<in> set evs. event_ok n (id (stream s)) e"
  shows "stream_inv (n - int (length evs)) (run evs s)
         \<and> sint (offset (stream s)) \<le> sint (offset (stream (run evs s)))"
  using assms
proof (induction evs arbitrary: s n)
  case Nil
  then show ?case by simp
next
  case (Cons e es)
  show ?case
  proof (cases "finished s")
    case True
    then show ?thesis
      using stream_inv_weaken [OF Cons.prems(1), of "n - int (length (e # es))"] by simp
  next
    case False
    have n: "0 \<le> n - 1" using Cons.prems(2) by simp
    have st: "stream_inv (n - 1) (run_step e s)
        \<and> sint (offset (stream s)) \<le> sint (offset (stream (run_step e s)))"
      using step_inv [of "n - 1" s e] Cons.prems n by simp
    have "\<forall>x \<in> set es. event_ok (n - 1) (id (stream (run_step e s))) x"
      using Cons.prems(3) event_ok_weaken [of n _ _ "n - 1"] by (simp add: step_id)
    then have "stream_inv (n - 1 - int (length es)) (run es (run_step e s))
        \<and> sint (offset (stream (run_step e s))) \<le> sint (offset (stream (run es (run_step e s))))"
      using Cons.IH [of "n - 1" "run_step e s"] st Cons.prems(2) by simp
    then show ?thesis
      using st False by (simp add: algebra_simps)
  qed
qed

lemma run_id: "id (stream (run evs s)) = id (stream s)"
  by (induction evs arbitrary: s) (simp_all add: step_id)

lemma stream_inv_init:
  "messagesCh m = [] \<Longrightarrow> sint (offset m) + n < 2 ^ 63 \<Longrightarrow> stream_inv n (run_init m ch)"
  by (simp add: stream_inv_def run_init_def pending_def)

lemma parse_filter:
  assumes "parseFetchResult ms r = (ms', msgs, err)"
  shows "list_all (\<lambda>x. \<not> Offset x <s offset ms) msgs"
  using parseFetchResult_cases [OF assms]
  by (auto simp: list_all_iff kept_def)

text \<open>
  Claim C5, as the code has it. Take any run of a newly created stream in which every
  fetch result lists the records of the partition in strictly increasing offset order,
  and in which no offset comes so close to the largest \<^verbatim>\<open>int64\<close> that adding 1 could
  overflow within the run. Then the stream's offset never decreases (it is at least what
  it was after any prefix of the run), and the messages sent have strictly increasing
  offsets. Besides: the messages \<^verbatim>\<open>parseFetchResult\<close> returns are never below the
  stream's offset; sending a message sets the offset to that message's offset + 1; and
  the next fetch request carries the stream's offset.
\<close>

theorem stream_offsets_ascend:
  assumes fresh: "messagesCh m = []"
    and bound: "sint (offset m) + int (length (evs1 @ evs2)) < 2 ^ 63"
    and ok: "\<forall>e \<in> set (evs1 @ evs2). event_ok (int (length (evs1 @ evs2))) (id m) e"
  shows "sint (offset (stream (run evs1 (run_init m ch))))
           \<le> sint (offset (stream (run (evs1 @ evs2) (run_init m ch))))
       \<and> ascending (map Offset (messagesCh (stream (run (evs1 @ evs2) (run_init m ch)))))
       \<and> (parseFetchResult ms r = (ms', msgs, err) \<longrightarrow> list_all (\<lambda>x. \<not> Offset x <s offset ms) msgs)
       \<and> (nilOrMessagesCh s \<and> currMessage s = Some x \<longrightarrow>
            offset (stream (run_step MessageSent s)) = Offset x + 1)
       \<and> (nilOrBrokerRequestsCh (stream s) = Some c \<longrightarrow>
            requests (run_step RequestSent s) = requests s @ [(c, request_of s)]
            \<and> fr_Offset (request_of s) = offset (stream s))"
proof -
  let ?n = "int (length (evs1 @ evs2))"
  let ?s0 = "run_init m ch"
  have i0: "stream_inv ?n ?s0"
    using fresh bound by (rule stream_inv_init)
  have id0: "id (stream ?s0) = id m" by (simp add: run_init_def)
  have all: "stream_inv (?n - ?n) (run (evs1 @ evs2) ?s0)"
    using run_inv [OF i0, of "evs1 @ evs2"] ok by (simp add: id0)
  have i1: "stream_inv (?n - int (length evs1)) (run evs1 ?s0)"
    using run_inv [OF i0, of evs1] ok by (simp add: id0)
  have "\<forall>e \<in> set evs2. event_ok (?n - int (length evs1)) (id (stream (run evs1 ?s0))) e"
    using ok event_ok_weaken [of ?n "id m" _ "?n - int (length evs1)"] by (simp add: run_id id0)
  then have mono: "sint (offset (stream (run evs1 ?s0))) \<le> sint (offset (stream (run evs2 (run evs1 ?s0))))"
    using run_inv [OF i1, of evs2] by simp
  have 1: "sint (offset (stream (run evs1 ?s0))) \<le> sint (offset (stream (run (evs1 @ evs2) ?s0)))"
    using mono by (simp add: run_append)
  have 2: "ascending (map Offset (messagesCh (stream (run (evs1 @ evs2) ?s0))))"
    using all by (simp add: stream_inv_def)
  have 3: "parseFetchResult ms r = (ms', msgs, err) \<longrightarrow> list_all (\<lambda>x. \<not> Offset x <s offset ms) msgs"
    using parse_filter by blast
  have 4: "nilOrMessagesCh s \<and> currMessage s = Some x \<longrightarrow>
            offset (stream (run_step MessageSent s)) = Offset x + 1"
    by (simp add: Let_def)
  have 5: "nilOrBrokerRequestsCh (stream s) = Some c \<longrightarrow>
            requests (run_step RequestSent s) = requests s @ [(c, request_of s)]
            \<and> fr_Offset (request_of s) = offset (stream s)"
    by (simp add: request_of_def)
  from 1 2 3 4 5 show ?thesis by blast
qed

lemma ex_init [simp]: "finished (run_init m ch) = False"
  by (simp add: run_init_def)

lemma ex_parse_batch:
  "id ms = \<lparr>topic = ''t'', partition = 0\<rparr> \<Longrightarrow> offset ms = 100 \<Longrightarrow>
   parseFetchResult ms ex_batch =
     (ms\<lparr>fetchSize := Fetch_Default (cfg ms), lag := 3\<rparr>,
      map (consumerMessage ms \<lparr>blk_Err = ErrNoError, HighWaterMarkOffset = 105,
             MsgSet_Messages = [[ex_record 100], [ex_record 101], [ex_record 102]],
             PartialTrailingMessage = False\<rparr>) [ex_record 100, ex_record 101, ex_record 102], None)"
  by (simp add: parseFetchResult_def ex_batch_def ex_result_def GetBlock_def Let_def ex_record_def
      word_sless_alt)

lemma ex_parse_unordered:
  "id ms = \<lparr>topic = ''t'', partition = 0\<rparr> \<Longrightarrow> offset ms = 100 \<Longrightarrow>
   parseFetchResult ms ex_unordered =
     (ms\<lparr>fetchSize := Fetch_Default (cfg ms), lag := 5\<rparr>,
      map (consumerMessage ms \<lparr>blk_Err = ErrNoError, HighWaterMarkOffset = 105,
             MsgSet_Messages = [[ex_record 102], [ex_record 100]],
             PartialTrailingMessage = False\<rparr>) [ex_record 102, ex_record 100], None)"
  by (simp add: parseFetchResult_def ex_unordered_def ex_result_def GetBlock_def Let_def ex_record_def
      word_sless_alt)

lemma ex_run_batch:
  "map Offset (messagesCh (stream (run [FetchResult ex_batch 0, MessageSent, MessageSent, MessageSent] ex_waiting)))
     = [100, 101, 102]
   \<and> offset (stream (run [FetchResult ex_batch 0, MessageSent, MessageSent, MessageSent] ex_waiting)) = 103
   \<and> lag (stream (run [FetchResult ex_batch 0, MessageSent, MessageSent, MessageSent] ex_waiting)) = 3"
  by (simp add: ex_waiting_eq run_init_def ex_parse_batch ex_ms_simps Let_def consumerMessage_def ex_record_def)

lemma ex_run_first:
  "map Offset (messagesCh (stream (run [FetchResult ex_batch 0, MessageSent] ex_waiting))) = [100]
   \<and> map HighWaterMark (messagesCh (stream (run [FetchResult ex_batch 0, MessageSent] ex_waiting))) = [105]
   \<and> offset (stream (run [FetchResult ex_batch 0, MessageSent] ex_waiting)) = 101
   \<and> lag (stream (run [FetchResult ex_batch 0, MessageSent] ex_waiting)) = 3"
  by (simp add: ex_waiting_eq run_init_def ex_parse_batch ex_ms_simps Let_def consumerMessage_def ex_record_def)

lemma ex_run_unordered:
  "map Offset (messagesCh (stream (run [FetchResult ex_unordered 0, MessageSent, MessageSent] ex_waiting)))
     = [102, 100]
   \<and> offset (stream (run [FetchResult ex_unordered 0, MessageSent] ex_waiting)) = 103
   \<and> offset (stream (run [FetchResult ex_unordered 0, MessageSent, MessageSent] ex_waiting)) = 101"
  by (simp add: ex_waiting_eq run_init_def ex_parse_unordered ex_ms_simps Let_def consumerMessage_def ex_record_def)

section \<open>Sending a batch\<close>

text \<open>
  Sending the rest of a batch: the offset ends one above the offset of the last message,
  the lag is not touched.
\<close>

lemma drain:
  assumes "k = length (fetchedMessages s) - currMessageIdx s"
    and "nilOrMessagesCh s" "\<not> finished s"
    and "currMessageIdx s < length (fetchedMessages s)"
    and "currMessage s = Some (fetchedMessages s ! currMessageIdx s)"
  shows "offset (stream (run (replicate k MessageSent) s)) = Offset (last (fetchedMessages s)) + 1
       \<and> lag (stream (run (replicate k MessageSent) s)) = lag (stream s)
       \<and> messagesCh (stream (run (replicate k MessageSent) s))
           = messagesCh (stream s) @ drop (currMessageIdx s) (fetchedMessages s)
       \<and> \<not> nilOrMessagesCh (run (replicate k MessageSent) s)"
  using assms
proof (induction k arbitrary: s)
  case 0
  then show ?case by simp
next
  case (Suc k)
  define i where "i = currMessageIdx s"
  define fm where "fm = fetchedMessages s"
  have i: "i < length fm" and cur: "currMessage s = Some (fm ! i)" and k: "Suc k = length fm - i"
    using Suc.prems by (simp_all add: i_def fm_def)
  have r: "run (replicate (Suc k) MessageSent) s = run (replicate k MessageSent) (run_step MessageSent s)"
    using Suc.prems(3) by simp
  show ?case
  proof (cases "Suc i < length fm")
    case True
    have st: "run_step MessageSent s =
        s\<lparr>stream := (stream s)\<lparr>messagesCh := messagesCh (stream s) @ [fm ! i], offset := Offset (fm ! i) + 1\<rparr>,
          currMessageIdx := Suc i, currMessage := Some (fm ! Suc i)\<rparr>"
      using Suc.prems(2) cur True by (simp add: Let_def i_def fm_def)
    have "offset (stream (run (replicate k MessageSent) (run_step MessageSent s)))
            = Offset (last (fetchedMessages (run_step MessageSent s))) + 1
       \<and> lag (stream (run (replicate k MessageSent) (run_step MessageSent s)))
            = lag (stream (run_step MessageSent s))
       \<and> messagesCh (stream (run (replicate k MessageSent) (run_step MessageSent s)))
           = messagesCh (stream (run_step MessageSent s))
               @ drop (currMessageIdx (run_step MessageSent s)) (fetchedMessages (run_step MessageSent s))
       \<and> \<not> nilOrMessagesCh (run (replicate k MessageSent) (run_step MessageSent s))"
      using True k Suc.prems(2,3) unfolding st
      by (intro Suc.IH) (simp_all add: fm_def [symmetric])
    then show ?thesis
      unfolding r st using i
      by (simp add: fm_def [symmetric] i_def [symmetric] Cons_nth_drop_Suc del: run_step.simps)
  next
    case False
    have k0: "k = 0" and il: "i = length fm - 1" using False k i by simp_all
    have st: "run_step MessageSent s =
        s\<lparr>stream := (stream s)\<lparr>messagesCh := messagesCh (stream s) @ [fm ! i], offset := Offset (fm ! i) + 1,
              nilOrBrokerRequestsCh := assignedBrokerRequestCh (stream s)\<rparr>,
          currMessageIdx := Suc i, nilOrMessagesCh := False\<rparr>"
      using Suc.prems(2) cur False by (simp add: Let_def i_def fm_def)
    have "fm \<noteq> []" using i by auto
    then have l: "fm ! i = last fm" using il by (simp add: last_conv_nth)
    have d: "drop i fm = [fm ! i]"
      using i False Cons_nth_drop_Suc [of i fm] by simp
    have r0: "run (replicate (Suc k) MessageSent) s = run_step MessageSent s"
      using Suc.prems(3) k0 by (simp del: run_step.simps)
    show ?thesis
      unfolding r0 st using l d by (simp add: fm_def [symmetric] i_def [symmetric])
  qed
qed

text \<open>
  Claim C9, as the code has it. The lag is computed while the batch is parsed, not when
  a message is sent: once a result with messages has been parsed, the lag is already the
  high water mark minus the offset of the last message kept, and the offset is still the
  old one. Every message carries the high water mark of the block. Sending a message
  advances the offset to that message's offset + 1, appends the message to the messages
  channel and leaves the lag alone; after all messages of the batch have been sent, the
  offset is the last offset + 1 and the lag is the high water mark minus the last
  offset.
\<close>

theorem drain_sets_offset_and_lag:
  assumes enabled: "nilOrFetchResultsCh s" "\<not> finished s"
    and block: "block_of (id (stream s)) r = Some block" "blk_Err block = ErrNoError"
      "MsgSet_Messages block \<noteq> []"
    and msgs: "msgs = map (consumerMessage (stream s) block) (kept (stream s) (concat (MsgSet_Messages block)))"
      "msgs \<noteq> []"
    and parsed: "s1 = run_step (FetchResult r now) s"
    and drained: "s2 = run (replicate (length msgs) MessageSent) s1"
  shows "lag (stream s1) = HighWaterMarkOffset block - Offset (last msgs)
       \<and> offset (stream s1) = offset (stream s)
       \<and> list_all (\<lambda>m. HighWaterMark m = HighWaterMarkOffset block) msgs
       \<and> messagesCh (stream s2) = messagesCh (stream s) @ msgs
       \<and> offset (stream s2) = Offset (last msgs) + 1
       \<and> lag (stream s2) = HighWaterMarkOffset block - Offset (last msgs)
       \<and> (nilOrMessagesCh s' \<and> currMessage s' = Some m \<longrightarrow>
            offset (stream (run_step MessageSent s')) = Offset m + 1
            \<and> lag (stream (run_step MessageSent s')) = lag (stream s')
            \<and> messagesCh (stream (run_step MessageSent s')) = messagesCh (stream s') @ [m])"
proof -
  define ms where "ms = stream s"
  have k: "kept ms (concat (MsgSet_Messages block)) \<noteq> []"
    using msgs by (auto simp: ms_def)
  have p: "parseFetchResult ms r =
      (ms\<lparr>fetchSize := Fetch_Default (cfg ms), lag := lag_after ms block (concat (MsgSet_Messages block))\<rparr>,
       msgs, None)"
    using parseFetchResult_batch [of ms r block] block k msgs(1) by (simp add: ms_def)
  have st: "s1 = s\<lparr>nilOrFetchResultsCh := False,
        stream := ms\<lparr>fetchSize := Fetch_Default (cfg ms), lag := lag_after ms block (concat (MsgSet_Messages block))\<rparr>,
        fetchedMessages := msgs, currMessageIdx := 0, currMessage := Some (msgs ! 0), nilOrMessagesCh := True\<rparr>"
    unfolding parsed using enabled(1) p msgs(2) by (simp add: Let_def ms_def)
  have l: "Offset (last msgs) = mb_Offset (last (kept ms (concat (MsgSet_Messages block))))"
    using k unfolding msgs(1) ms_def [symmetric] by (simp add: last_map)
  have 1: "lag (stream s1) = HighWaterMarkOffset block - Offset (last msgs)"
    using k by (simp add: st lag_after_def l)
  have 2: "offset (stream s1) = offset (stream s)"
    by (simp add: st ms_def)
  have 3: "list_all (\<lambda>m. HighWaterMark m = HighWaterMarkOffset block) msgs"
    by (simp add: msgs(1) list_all_iff consumerMessage_def)
  have d: "offset (stream s2) = Offset (last (fetchedMessages s1)) + 1
       \<and> lag (stream s2) = lag (stream s1)
       \<and> messagesCh (stream s2) = messagesCh (stream s1) @ drop (currMessageIdx s1) (fetchedMessages s1)
       \<and> \<not> nilOrMessagesCh s2"
    unfolding drained using msgs(2) enabled(2)
    by (intro drain) (simp_all add: st)
  have 4: "messagesCh (stream s2) = messagesCh (stream s) @ msgs"
    and 5: "offset (stream s2) = Offset (last msgs) + 1"
    and 6: "lag (stream s2) = HighWaterMarkOffset block - Offset (last msgs)"
    using d 1 by (simp_all add: st ms_def)
  have 7: "nilOrMessagesCh s' \<and> currMessage s' = Some m \<longrightarrow>
            offset (stream (run_step MessageSent s')) = Offset m + 1
            \<and> lag (stream (run_step MessageSent s')) = lag (stream s')
            \<and> messagesCh (stream (run_step MessageSent s')) = messagesCh (stream s') @ [m]"
    by (simp add: Let_def)
  from 1 2 3 4 5 6 7 show ?thesis by blast
qed

lemma ex_waiting_simps:
  "nilOrFetchResultsCh ex_waiting" "\<not> finished ex_waiting" "\<not> nilOrMessagesCh ex_waiting"
  "id (stream ex_waiting) = \<lparr>topic = ''t'', partition = 0\<rparr>" "offset (stream ex_waiting) = 100"
  "messagesCh (stream ex_waiting) = []"
  by (simp_all add: ex_waiting_eq run_init_def ex_ms_simps)

lemma ex_from_init:
  "run (Assignment (Some 7) 0 # RequestSent # evs) (run_init ex_ms 9) = run evs ex_waiting"
  using run_append [of "[Assignment (Some 7) 0, RequestSent]" evs "run_init ex_ms 9"]
  by (simp add: ex_waiting_def del: run.simps run_step.simps)

lemma ex_batch_offsets: "offsets_of \<lparr>topic = ''t'', partition = 0\<rparr> ex_batch = [100, 101, 102]"
  by (simp add: offsets_of_def ex_batch_def ex_block ex_record_def)

lemma ex_run_drained:
  "nilOrBrokerRequestsCh (stream (run [FetchResult ex_batch 0, MessageSent, MessageSent, MessageSent] ex_waiting))
     = Some 7
   \<and> fr_Offset (request_of (run [FetchResult ex_batch 0, MessageSent, MessageSent, MessageSent] ex_waiting))
     = 103"
  by (simp add: ex_waiting_eq run_init_def ex_parse_batch ex_ms_simps Let_def consumerMessage_def
      ex_record_def request_of_def)

lemma ex_run_parsed:
  "nilOrMessagesCh (run_step (FetchResult ex_batch 0) ex_waiting)
   \<and> map_option Offset (currMessage (run_step (FetchResult ex_batch 0) ex_waiting)) = Some 100
   \<and> lag (stream (run_step (FetchResult ex_batch 0) ex_waiting)) = 3
   \<and> offset (stream (run_step (FetchResult ex_batch 0) ex_waiting)) = 100"
  by (simp add: ex_waiting_eq run_init_def ex_parse_batch ex_ms_simps Let_def consumerMessage_def
      ex_record_def)

theorem stream_offsets_ascend_witness:
  "messagesCh ex_ms = []
   \<and> list_all (event_ok 6 (id ex_ms))
        [Assignment (Some 7) 0, RequestSent, FetchResult ex_batch 0, MessageSent, MessageSent, MessageSent]
   \<and> map Offset (messagesCh (stream (run
        [Assignment (Some 7) 0, RequestSent, FetchResult ex_batch 0, MessageSent, MessageSent, MessageSent]
        (run_init ex_ms 9)))) = [100, 101, 102]
   \<and> ascending [100, 101, 102]
   \<and> sint (offset (stream (run
        [Assignment (Some 7) 0, RequestSent, FetchResult ex_batch 0, MessageSent] (run_init ex_ms 9))))
      \<le> sint (offset (stream (run
        [Assignment (Some 7) 0, RequestSent, FetchResult ex_batch 0, MessageSent, MessageSent, MessageSent]
        (run_init ex_ms 9))))
   \<and> list_all (\<lambda>x. \<not> Offset x <s offset (stream ex_waiting))
        (fst (snd (parseFetchResult (stream ex_waiting) ex_batch)))
   \<and> offset (stream (run_step MessageSent (run_step (FetchResult ex_batch 0) ex_waiting))) = 101
   \<and> map (fr_Offset \<circ> snd) (requests (run
        [Assignment (Some 7) 0, RequestSent, FetchResult ex_batch 0, MessageSent, MessageSent, MessageSent,
         RequestSent] (run_init ex_ms 9))) = [100, 103]"
proof -
  let ?evs1 = "[Assignment (Some 7) 0, RequestSent, FetchResult ex_batch 0, MessageSent]"
  let ?evs2 = "[MessageSent, MessageSent]"
  let ?drained = "run [FetchResult ex_batch 0, MessageSent, MessageSent, MessageSent] ex_waiting"
  have fresh: "messagesCh ex_ms = []" by (simp add: ex_ms_simps)
  have bound: "sint (offset ex_ms) + int (length (?evs1 @ ?evs2)) < 2 ^ 63"
    by (simp add: ex_ms_simps)
  have okl: "list_all (event_ok 6 (id ex_ms)) (?evs1 @ ?evs2)"
    by (simp add: event_ok_def ex_ms_simps ex_batch_offsets ascending_def)
  then have ok: "\<forall>e \<in> set (?evs1 @ ?evs2). event_ok (int (length (?evs1 @ ?evs2))) (id ex_ms) e"
    by (simp add: list_all_iff)
  note t1 = stream_offsets_ascend [OF fresh bound ok, where ch = 9, THEN conjunct1]
  note t2 = stream_offsets_ascend [OF fresh bound ok, where ch = 9, THEN conjunct2, THEN conjunct1]
  note t3 = stream_offsets_ascend [OF fresh bound ok, where ms = "stream ex_waiting"
      and r = ex_batch and ms' = "fst (parseFetchResult (stream ex_waiting) ex_batch)"
      and msgs = "fst (snd (parseFetchResult (stream ex_waiting) ex_batch))"
      and err = "snd (snd (parseFetchResult (stream ex_waiting) ex_batch))",
      THEN conjunct2, THEN conjunct2, THEN conjunct1]
  note t4 = stream_offsets_ascend [OF fresh bound ok,
      where s = "run_step (FetchResult ex_batch 0) ex_waiting"
      and x = "the (currMessage (run_step (FetchResult ex_batch 0) ex_waiting))",
      THEN conjunct2, THEN conjunct2, THEN conjunct2, THEN conjunct1]
  note t5 = stream_offsets_ascend [OF fresh bound ok, where s = ?drained and c = 7,
      THEN conjunct2, THEN conjunct2, THEN conjunct2, THEN conjunct2]
  have cur: "currMessage (run_step (FetchResult ex_batch 0) ex_waiting)
      = Some (the (currMessage (run_step (FetchResult ex_batch 0) ex_waiting)))"
    using ex_run_parsed by (cases "currMessage (run_step (FetchResult ex_batch 0) ex_waiting)") simp_all
  have o: "Offset (the (currMessage (run_step (FetchResult ex_batch 0) ex_waiting))) = 100"
    using ex_run_parsed cur by (metis option.sel option.simps(9))
  have reqs: "requests ?drained = [(7, request_of (run_init ex_ms 9))]"
    by (simp add: ex_waiting_eq run_init_def ex_parse_batch ex_ms_simps Let_def)
  have nf: "\<not> finished ?drained"
    by (simp add: ex_waiting_eq run_init_def ex_parse_batch ex_ms_simps Let_def)
  have one: "run [e] st = (if finished st then st else run_step e st)" for e st
    by simp
  have r2: "run [FetchResult ex_batch 0, MessageSent, MessageSent, MessageSent, RequestSent] ex_waiting
      = run_step RequestSent ?drained"
    using run_append [of "[FetchResult ex_batch 0, MessageSent, MessageSent, MessageSent]" "[RequestSent]"
        ex_waiting] nf
    by (simp only: one append.simps if_False)
  have req0: "fr_Offset (request_of (run_init ex_ms 9)) = 100"
    by (simp add: request_of_def run_init_def ex_ms_simps)
  show ?thesis
    using t1 t2 t3 t4 t5 okl fresh ex_run_batch ex_run_drained ex_run_parsed cur o reqs nf req0
    by (simp add: ex_from_init r2 del: run.simps run_step.simps)
qed

text \<open>
  The claim as written fails on a fetch result whose records are out of order: the filter
  compares every record with the offset the stream had when the result arrived, so the
  records 102, 100 are both kept and sent in this order, and the offset goes from 103
  back to 101.
\<close>

theorem unordered_batch_counterexample:
  "map Offset (messagesCh (stream (run
      [Assignment (Some 7) 0, RequestSent, FetchResult ex_unordered 0, MessageSent, MessageSent]
      (run_init ex_ms 9)))) = [102, 100]
   \<and> \<not> ascending [102, 100]
   \<and> offset (stream (run
      [Assignment (Some 7) 0, RequestSent, FetchResult ex_unordered 0, MessageSent] (run_init ex_ms 9))) = 103
   \<and> offset (stream (run
      [Assignment (Some 7) 0, RequestSent, FetchResult ex_unordered 0, MessageSent, MessageSent]
      (run_init ex_ms 9))) = 101
   \<and> \<not> sint (103 :: int64) \<le> sint (101 :: int64)"
  using ex_run_unordered
  by (simp add: ex_from_init ascending_def del: run.simps run_step.simps)

lemma ex_batch_block:
  "block_of \<lparr>topic = ''t'', partition = 0\<rparr> ex_batch =
     Some \<lparr>blk_Err = ErrNoError, HighWaterMarkOffset = 105,
           MsgSet_Messages = [[ex_record 100], [ex_record 101], [ex_record 102]],
           PartialTrailingMessage = False\<rparr>"
  by (simp add: ex_batch_def ex_block)

theorem drain_sets_offset_and_lag_witness:
  "nilOrFetchResultsCh ex_waiting \<and> \<not> finished ex_waiting
   \<and> lag (stream (run_step (FetchResult ex_batch 0) ex_waiting)) = 3
   \<and> offset (stream (run_step (FetchResult ex_batch 0) ex_waiting)) = 100
   \<and> map Offset (messagesCh (stream (run (replicate 3 MessageSent)
        (run_step (FetchResult ex_batch 0) ex_waiting)))) = [100, 101, 102]
   \<and> offset (stream (run (replicate 3 MessageSent) (run_step (FetchResult ex_batch 0) ex_waiting))) = 103
   \<and> lag (stream (run (replicate 3 MessageSent) (run_step (FetchResult ex_batch 0) ex_waiting))) = 3
   \<and> nilOrMessagesCh (run_step (FetchResult ex_batch 0) ex_waiting)
   \<and> offset (stream (run_step MessageSent (run_step (FetchResult ex_batch 0) ex_waiting))) = 101
   \<and> lag (stream (run_step MessageSent (run_step (FetchResult ex_batch 0) ex_waiting))) = 3"
proof -
  let ?B = "\<lparr>blk_Err = ErrNoError, HighWaterMarkOffset = 105,
           MsgSet_Messages = [[ex_record 100], [ex_record 101], [ex_record 102]],
           PartialTrailingMessage = False\<rparr>"
  let ?s1 = "run_step (FetchResult ex_batch 0) ex_waiting"
  have b: "block_of (id (stream ex_waiting)) ex_batch = Some ?B"
    by (simp add: ex_waiting_simps ex_batch_block)
  have k: "kept (stream ex_waiting) (concat (MsgSet_Messages ?B)) = [ex_record 100, ex_record 101, ex_record 102]"
    by (simp add: kept_def ex_waiting_simps ex_record_def word_sless_alt)
  have ne: "map (consumerMessage (stream ex_waiting) ?B) (kept (stream ex_waiting) (concat (MsgSet_Messages ?B))) \<noteq> []"
    unfolding k by simp
  have cur: "currMessage ?s1 = Some (the (currMessage ?s1))"
    using ex_run_parsed by (cases "currMessage ?s1") simp_all
  have o: "Offset (the (currMessage ?s1)) = 100"
    using ex_run_parsed cur by (metis option.sel option.simps(9))
  show ?thesis
    using drain_sets_offset_and_lag [OF ex_waiting_simps(1,2) b _ _ refl ne refl refl,
        where now = 0 and s' = ?s1 and m = "the (currMessage ?s1)"] cur o ex_run_parsed
    unfolding k
    by (simp add: ex_waiting_simps ex_record_def eval_nat_numeral del: run.simps run_step.simps)
qed

text \<open>
  The claim as written fails between the messages of a batch: after the first of the
  records 100, 101, 102 (high water mark 105) has been sent, the lag is 3, not
  \<open>105 - 100\<close>.
\<close>

theorem lag_set_at_parse_counterexample:
  "map Offset (messagesCh (stream (run [FetchResult ex_batch 0, MessageSent] ex_waiting))) = [100]
   \<and> map HighWaterMark (messagesCh (stream (run [FetchResult ex_batch 0, MessageSent] ex_waiting))) = [105]
   \<and> lag (stream (run [FetchResult ex_batch 0, MessageSent] ex_waiting)) = 3
   \<and> (105 :: int64) - 100 \<noteq> 3"
  using ex_run_first by simp

section \<open>The cooldown of a broker executor\<close>

lemma executor_turn_cooldown:
  assumes "time_Sub (turn_now t) (lastErrTime st) < Retry_Backoff config"
  shows "executor_turn config t st =
           st\<lparr>replies := replies st @ reply_all (fetchRequests t) \<lparr>Response = None, Err = lastErr st\<rparr>\<rparr>"
  using assms by (simp add: executor_turn_def)

lemma executor_turn_failure:
  assumes "\<not> time_Sub (turn_now t) (lastErrTime st) < Retry_Backoff config"
    and "snd (fetch_outcome t) = Some e"
  shows "lastErr (executor_turn config t st) = Some e"
    and "lastErrTime (executor_turn config t st) = turn_err_now t"
    and "conn_closes (executor_turn config t st) = Suc (conn_closes st)"
  using assms by (simp_all add: executor_turn_def Let_def)

lemma runExecutor_cooldown:
  assumes "list_all (\<lambda>t. time_Sub (turn_now t) (lastErrTime st) < Retry_Backoff config) ts"
  shows "runExecutor config ts st =
           st\<lparr>replies := replies st @
                 concat (map (\<lambda>t. reply_all (fetchRequests t) \<lparr>Response = None, Err = lastErr st\<rparr>) ts)\<rparr>"
  using assms
proof (induction ts arbitrary: st)
  case Nil
  then show ?case by simp
next
  case (Cons t ts)
  let ?st1 = "st\<lparr>replies := replies st @ reply_all (fetchRequests t) \<lparr>Response = None, Err = lastErr st\<rparr>\<rparr>"
  have 1: "executor_turn config t st = ?st1"
    using Cons.prems by (simp add: executor_turn_cooldown)
  have "list_all (\<lambda>t. time_Sub (turn_now t) (lastErrTime ?st1) < Retry_Backoff config) ts"
    using Cons.prems by simp
  from Cons.IH [OF this] show ?case
    by (simp add: 1)
qed

text \<open>
  Claim C7. Let a turn of the executor loop call the broker and fail with error \<open>e\<close>, and
  let \<open>T\<close> be the clock read when the failure is recorded. Then the error \<open>e\<close> and the
  time \<open>T\<close> are recorded, and for all the batches the loop processes next at clock readings
  less than the retry backoff after \<open>T\<close>: every request of every batch receives exactly one
  reply, with no response and the error \<open>e\<close>; no wire call is made and the connection is
  not closed again; the recorded error and time stay.
\<close>

theorem cooldown_short_circuits:
  assumes failed: "\<not> time_Sub (turn_now t0) (lastErrTime st0) < Retry_Backoff config"
      "snd (fetch_outcome t0) = Some e"
    and T: "T = turn_err_now t0"
    and st: "st = executor_turn config t0 st0"
    and within: "list_all (\<lambda>t. time_Sub (turn_now t) T < Retry_Backoff config) ts"
  shows "lastErr st = Some e \<and> lastErrTime st = T
       \<and> replies (runExecutor config ts st) =
           replies st @ concat (map (\<lambda>t. reply_all (fetchRequests t) \<lparr>Response = None, Err = Some e\<rparr>) ts)
       \<and> wire_calls (runExecutor config ts st) = wire_calls st
       \<and> conn_closes (runExecutor config ts st) = conn_closes st
       \<and> lastErr (runExecutor config ts st) = Some e
       \<and> lastErrTime (runExecutor config ts st) = T"
proof -
  have e: "lastErr st = Some e" and t: "lastErrTime st = T"
    using executor_turn_failure [OF failed] st T by simp_all
  have "list_all (\<lambda>t. time_Sub (turn_now t) (lastErrTime st) < Retry_Backoff config) ts"
    using within t by simp
  from runExecutor_cooldown [OF this] e t show ?thesis
    by simp
qed

lemma map_fst_reply_all [simp]: "map fst (reply_all frs res) = map ReplyToCh frs"
  by (simp add: reply_all_def o_def)

text \<open>
  A turn of the executor loop sends exactly one reply per request of its batch, in the
  order of the batch, whether it calls the broker or not.
\<close>

lemma executor_turn_replies_once:
  "map fst (replies (executor_turn config t st)) = map fst (replies st) @ map ReplyToCh (fetchRequests t)"
  by (simp add: executor_turn_def Let_def)

lemma runExecutor_replies_once:
  "map fst (replies (runExecutor config ts st)) =
     map fst (replies st) @ concat (map (\<lambda>t. map ReplyToCh (fetchRequests t)) ts)"
  by (induction ts arbitrary: st) (simp_all add: executor_turn_replies_once)

theorem cooldown_short_circuits_witness:
  "replies (runExecutor ex_cfg [ex_turn [ex_req 1, ex_req 2] 1000000006, ex_turn [ex_req 3] 2000000004]
             (executor_turn ex_cfg (ex_turn [ex_req 1] 0) executor_init))
     = [(1, \<lparr>Response = None, Err = Some (ErrOther ''connection reset'')\<rparr>),
        (1, \<lparr>Response = None, Err = Some (ErrOther ''connection reset'')\<rparr>),
        (2, \<lparr>Response = None, Err = Some (ErrOther ''connection reset'')\<rparr>),
        (3, \<lparr>Response = None, Err = Some (ErrOther ''connection reset'')\<rparr>)]
   \<and> length (wire_calls (runExecutor ex_cfg [ex_turn [ex_req 1, ex_req 2] 1000000006, ex_turn [ex_req 3] 2000000004]
             (executor_turn ex_cfg (ex_turn [ex_req 1] 0) executor_init))) = 1"
proof -
  have f: "\<not> time_Sub (turn_now (ex_turn [ex_req 1] 0)) (lastErrTime executor_init) < Retry_Backoff ex_cfg"
    "snd (fetch_outcome (ex_turn [ex_req 1] 0)) = Some (ErrOther ''connection reset'')"
    by (simp_all add: ex_turn_def executor_init_def time_Sub_def zeroTime_def maxDuration_def minDuration_def
        ex_cfg_def)
  have w: "list_all (\<lambda>t. time_Sub (turn_now t) (turn_err_now (ex_turn [ex_req 1] 0)) < Retry_Backoff ex_cfg)
      [ex_turn [ex_req 1, ex_req 2] 1000000006, ex_turn [ex_req 3] 2000000004]"
    by (simp add: ex_turn_def time_Sub_def maxDuration_def minDuration_def ex_cfg_def)
  have st: "replies (executor_turn ex_cfg (ex_turn [ex_req 1] 0) executor_init)
      = [(1, \<lparr>Response = None, Err = Some (ErrOther ''connection reset'')\<rparr>)]"
    "length (wire_calls (executor_turn ex_cfg (ex_turn [ex_req 1] 0) executor_init)) = 1"
    using f(1) by (simp_all add: executor_turn_def Let_def ex_turn_def executor_init_def reply_all_def ex_req_def)
  show ?thesis
    using cooldown_short_circuits [OF f refl refl w] st
    by (simp add: reply_all_def ex_turn_def ex_req_def)
qed

text \<open>
  What the two loops do guarantee: the requests the aggregator has received are those it
  has handed over followed by those still in \<^verbatim>\<open>batchRequest\<close>, and every request handed
  over receives exactly one reply, in order.
\<close>

lemma aggregator_step_conserves:
  "e \<noteq> RequestsChClosed \<Longrightarrow>
   concat (handed_over (aggregator_step e a)) @ batchRequest (aggregator_step e a) =
     concat (handed_over a) @ batchRequest a @ (case e of RequestReceived fr \<Rightarrow> [fr] | _ \<Rightarrow> [])"
  by (cases e) simp_all

lemma runAggregator_returned: "returned a \<Longrightarrow> runAggregator evs a = a"
  by (cases evs) simp_all

lemma runAggregator_conserves:
  "\<not> returned a \<Longrightarrow>
   concat (handed_over (runAggregator evs a)) @ batchRequest (runAggregator evs a) =
     concat (handed_over a) @ batchRequest a @ received_requests evs"
proof (induction evs arbitrary: a)
  case Nil
  then show ?case by (simp add: received_requests_def)
next
  case (Cons e evs)
  show ?case
  proof (cases "e = RequestsChClosed")
    case True
    then show ?thesis
      using Cons.prems by (simp add: received_requests_def runAggregator_returned)
  next
    case False
    then have "\<not> returned (aggregator_step e a)"
      using Cons.prems by (cases e) simp_all
    from Cons.IH [OF this] show ?thesis
      using Cons.prems False aggregator_step_conserves [OF False, of a]
      by (simp add: received_requests_def del: aggregator_step.simps)
  qed
qed

lemma turns_of_requests:
  "length batches \<le> length world \<Longrightarrow>
   concat (map (\<lambda>t. map ReplyToCh (fetchRequests t)) (turns_of batches world)) =
     map ReplyToCh (concat batches)"
proof (induction batches arbitrary: world)
  case Nil
  then show ?case by (simp add: turns_of_def)
next
  case (Cons b bs)
  then obtain w ws where w: "world = w # ws" by (cases world) auto
  then show ?case
    using Cons.IH [of ws] Cons.prems by (simp add: turns_of_def split: prod.splits)
qed

lemma brokerExecutor_replies_once:
  assumes "length (handed_over (runAggregator evs aggregator_init)) \<le> length world"
  shows "map fst (brokerExecutor_replies config evs world) =
           map ReplyToCh (concat (handed_over (runAggregator evs aggregator_init)))"
  using turns_of_requests [OF assms]
  by (simp add: brokerExecutor_replies_def runExecutor_replies_once executor_init_def)

lemma aggregator_received:
  "concat (handed_over (runAggregator evs aggregator_init)) @ batchRequest (runAggregator evs aggregator_init)
     = received_requests evs"
  using runAggregator_conserves [of aggregator_init evs] by (simp add: aggregator_init_def)

text \<open>
  Claim C2 fails on the code. The aggregator returns as soon as it finds \<^verbatim>\<open>requestsCh\<close>
  closed, and drops the requests it has received but not yet handed over. Here request 1
  is handed over and answered; request 2 arrives while the executor loop is busy, then
  the channel is closed: request 2 stays in \<^verbatim>\<open>batchRequest\<close>, is never handed over, and
  its reply channel never receives anything. The same happens to a single request that
  is followed by the close before the executor loop has taken it.
\<close>

theorem aggregator_drops_batch_on_close:
  "batchRequest (runAggregator
      [RequestReceived (ex_req 1), BatchTaken, RequestReceived (ex_req 2), RequestsChClosed]
      aggregator_init) = [ex_req 2]
   \<and> returned (runAggregator
      [RequestReceived (ex_req 1), BatchTaken, RequestReceived (ex_req 2), RequestsChClosed]
      aggregator_init)
   \<and> handed_over (runAggregator
      [RequestReceived (ex_req 1), BatchTaken, RequestReceived (ex_req 2), RequestsChClosed]
      aggregator_init) = [[ex_req 1]]
   \<and> map fst (brokerExecutor_replies config
      [RequestReceived (ex_req 1), BatchTaken, RequestReceived (ex_req 2), RequestsChClosed]
      (w # world)) = [1]
   \<and> brokerExecutor_replies config [RequestReceived (ex_req 1), RequestsChClosed] (w # world) = []"
  by (simp add: brokerExecutor_replies_def aggregator_init_def turns_of_def executor_init_def
      runExecutor_replies_once executor_turn_replies_once ex_req_def split: prod.splits)

section \<open>The producer's dispatcher\<close>



lemma graceful_loop_simps [simp]:
  "outputs (graceful_loop s) = outputs s" "pendingMsgCount (graceful_loop s) = pendingMsgCount s"
  "prod_input (graceful_loop s) = prod_input s"
  by (simp_all add: graceful_loop_def)























end
